theory Spec2Isabelle
  imports Complex_Main "HOL-Library.Sublist" "HOL-Library.AList" "HOL-Library.Char_ord"
    "HOL-Library.List_Lexorder" "HOL-Library.Multiset"
begin

section \<open>The product catalogue of \<^verbatim>\<open>src/routes/products.js\<close>\<close>

text \<open>
  The module keeps a product array, four indexes and a response cache in module-level
  variables and serves them through Express handlers.  Here the module state is a record
  that every operation takes and returns; randomness, the clock and the outcome of the
  authentication middleware are inputs of the operation that consults them.

  A JavaScript string is modelled as a \<^typ>\<open>string\<close> whose characters are the code
  units \<open>0..255\<close> (Latin-1).  A JavaScript \<^verbatim>\<open>Map\<close> is an association list in
  insertion order, a \<^verbatim>\<open>Set\<close> of product ids is a duplicate-free list in insertion
  order, and a finite JavaScript number is a \<^typ>\<open>rat\<close> (a \<^typ>\<open>nat\<close> where the code
  has established that it is a non-negative integer).
\<close>

subsection \<open>Text normalisation\<close>

definition code_unit :: "char \<Rightarrow> nat" where
  "code_unit c = of_char c"

text \<open>The characters matched by \<^verbatim>\<open>\s\<close> and removed by \<^verbatim>\<open>trim()\<close>, below 256.\<close>

definition isSpace :: "char \<Rightarrow> bool" where
  "isSpace c = (let n = code_unit c in (9 \<le> n \<and> n \<le> 13) \<or> n = 32 \<or> n = 160)"

text \<open>\<^verbatim>\<open>toLowerCase()\<close> on one code unit below 256.\<close>

definition lowerChar :: "char \<Rightarrow> char" where
  "lowerChar c =
     (let n = code_unit c
      in if (65 \<le> n \<and> n \<le> 90) \<or> (192 \<le> n \<and> n \<le> 222 \<and> n \<noteq> 215)
         then char_of (n + 32) else c)"

definition toLowerCase :: "string \<Rightarrow> string" where
  "toLowerCase s = map lowerChar s"

text \<open>
  \<^verbatim>\<open>replace(/\s+/g, ' ')\<close>: every maximal run of white space becomes one space.
  The flag says that the previous character belonged to a run already replaced.
\<close>

fun collapseFrom :: "bool \<Rightarrow> string \<Rightarrow> string" where
  "collapseFrom inRun [] = []"
| "collapseFrom inRun (c # cs) =
     (if isSpace c then (if inRun then collapseFrom True cs else CHR '' '' # collapseFrom True cs)
      else c # collapseFrom False cs)"

definition collapseSpaces :: "string \<Rightarrow> string" where
  "collapseSpaces s = collapseFrom False s"

definition trim :: "string \<Rightarrow> string" where
  "trim s = rev (dropWhile isSpace (rev (dropWhile isSpace s)))"

definition normalizeText :: "string \<Rightarrow> string" where
  "normalizeText v = trim (collapseSpaces (toLowerCase v))"

text \<open>The class \<^verbatim>\<open>[a-z0-9]\<close> under the \<^verbatim>\<open>i\<close> flag.\<close>

definition isAlnum :: "char \<Rightarrow> bool" where
  "isAlnum c =
     (let n = code_unit c
      in (48 \<le> n \<and> n \<le> 57) \<or> (65 \<le> n \<and> n \<le> 90) \<or> (97 \<le> n \<and> n \<le> 122))"

text \<open>
  \<^verbatim>\<open>text.split(/[^a-z0-9]+/i)\<close>: the pieces between the maximal runs of separators,
  an empty piece before a leading and after a trailing run, and \<^verbatim>\<open>[""]\<close> for the empty
  text.  The first argument is the piece being read, reversed; the flag says that the
  previous character was a separator.
\<close>

fun splitFrom :: "string \<Rightarrow> bool \<Rightarrow> string \<Rightarrow> string list" where
  "splitFrom cur inSep [] = [rev cur]"
| "splitFrom cur inSep (c # cs) =
     (if isAlnum c then splitFrom (c # cur) False cs
      else if inSep then splitFrom cur True cs
      else rev cur # splitFrom [] True cs)"

definition splitNonAlnum :: "string \<Rightarrow> string list" where
  "splitNonAlnum text = splitFrom [] False text"

definition getWords :: "string \<Rightarrow> string list" where
  "getWords text = filter (\<lambda>word. length word > 1) (splitNonAlnum text)"

text \<open>\<^verbatim>\<open>text.slice(a, b)\<close> for \<open>0 \<le> a \<le> b\<close>.\<close>

definition slice :: "'a list \<Rightarrow> nat \<Rightarrow> nat \<Rightarrow> 'a list" where
  "slice xs a b = take (b - a) (drop a xs)"

definition getTrigrams :: "string \<Rightarrow> string list" where
  "getTrigrams text =
     (if length text < 3 then []
      else map (\<lambda>i. slice text i (i + 3)) [0..<Suc (length text - 3)])"

text \<open>\<^verbatim>\<open>text.includes(q)\<close>: \<open>q\<close> occurs in \<open>text\<close> as a contiguous block.\<close>

definition js_includes :: "string \<Rightarrow> string \<Rightarrow> bool" where
  "js_includes text q = sublist q text"

subsection \<open>Products and the module state\<close>

text \<open>
  The ten fields that \<^verbatim>\<open>toPublicProduct\<close> copies.  The rating is the number the
  stored value denotes (the generator stores the text of a one-decimal number below ten,
  on which JavaScript's text order and number order agree; a created product stores
  \<open>0\<close>).
\<close>

record public_product =
  pid :: string
  name :: string
  description :: string
  price :: rat
  category :: string
  brand :: string
  stock :: rat
  rating :: rat
  tags :: "string list"
  createdAt :: string

text \<open>
  A stored product: the public fields, the internal ones, and \<^verbatim>\<open>searchableText\<close>,
  which is absent (\<^verbatim>\<open>undefined\<close>) until the product has been indexed.
\<close>

record product = public_product +
  costPrice :: rat
  supplier :: string
  internalNotes :: string
  adminOnly :: bool
  searchableText :: "string option"

definition toPublicProduct :: "product \<Rightarrow> public_product" where
  "toPublicProduct p =
     \<lparr> pid = pid p, name = name p, description = description p, price = price p,
       category = category p, brand = brand p, stock = stock p, rating = rating p,
       tags = tags p, createdAt = createdAt p \<rparr>"

type_synonym id_set = "string list"
type_synonym posting_index = "(string \<times> id_set) list"

text \<open>
  The validated query parameters, in the order in which the handler lists them.  The two
  page links of a response are kept as the parameters they encode (the URL text adds the
  \<^verbatim>\<open>BACKEND_URL\<close> prefix and percent-encoding).
\<close>

record params =
  q_page :: nat
  q_limit :: nat
  q_search :: string
  q_category :: string
  q_sortBy :: string
  q_sortOrder :: string

record pagination =
  currentPage :: nat
  totalPages :: nat
  totalItems :: nat
  itemsPerPage :: nat
  nextPage :: "params option"
  prevPage :: "params option"

record payload =
  resp_products :: "public_product list"
  resp_pagination :: pagination

record cache_entry =
  ce_payload :: payload
  ce_headers :: "(string \<times> string) list"
  expiresAt :: int

record catalog =
  products :: "product list"
  productById :: "(string \<times> product) list"
  trigramIndex :: posting_index
  wordIndex :: posting_index
  categoryIndex :: posting_index
  responseCache :: "(string \<times> cache_entry) list"

subsection \<open>Building the indexes\<close>

text \<open>\<^verbatim>\<open>Set.prototype.add\<close>: a new element goes to the end.\<close>

definition set_add :: "'a \<Rightarrow> 'a list \<Rightarrow> 'a list" where
  "set_add x xs = (if x \<in> set xs then xs else xs @ [x])"

text \<open>
  \<^verbatim>\<open>Map.prototype.set\<close> is \<^const>\<open>AList.update\<close>: the value of a present key is
  replaced in place, a new key goes to the end.
\<close>

definition addToIndex :: "posting_index \<Rightarrow> string \<Rightarrow> string \<Rightarrow> posting_index" where
  "addToIndex indexMap key productId =
     (let m = (if map_of indexMap key = None then AList.update key [] indexMap else indexMap)
      in case map_of m key of
           None \<Rightarrow> m
         | Some ids \<Rightarrow> AList.update key (set_add productId ids) m)"

definition textOf :: "product \<Rightarrow> string" where
  "textOf product = normalizeText (name product @ '' '' @ description product)"

text \<open>The body of the \<^verbatim>\<open>forEach\<close> in \<^verbatim>\<open>buildIndexes\<close>, for one product.\<close>

definition indexProduct :: "catalog \<Rightarrow> product \<Rightarrow> catalog" where
  "indexProduct s product0 =
     (let st = textOf product0;
          product = product0\<lparr>searchableText := Some st\<rparr>;
          s1 = s\<lparr>productById := AList.update (pid product) product (productById s)\<rparr>;
          s2 = s1\<lparr>categoryIndex := addToIndex (categoryIndex s1) (category product) (pid product)\<rparr>;
          s3 = s2\<lparr>wordIndex :=
                  foldl (\<lambda>ix word. addToIndex ix word (pid product)) (wordIndex s2) (getWords st)\<rparr>
      in s3\<lparr>trigramIndex :=
              foldl (\<lambda>ix trigram. addToIndex ix trigram (pid product)) (trigramIndex s3)
                (getTrigrams st)\<rparr>)"

text \<open>
  \<^verbatim>\<open>buildIndexes(productList)\<close>.  Every call site passes the module's own
  \<^verbatim>\<open>products\<close> array, so the write to \<^verbatim>\<open>product.searchableText\<close> is a write to the
  elements of \<^verbatim>\<open>products\<close>; the model stores the rewritten list there.
\<close>

definition withSearchableText :: "product \<Rightarrow> product" where
  "withSearchableText product = product\<lparr>searchableText := Some (textOf product)\<rparr>"

definition buildIndexes :: "product list \<Rightarrow> catalog \<Rightarrow> catalog" where
  "buildIndexes productList s =
     (let s0 = s\<lparr>productById := [], trigramIndex := [], wordIndex := [], categoryIndex := []\<rparr>;
          s1 = foldl indexProduct s0 productList
      in s1\<lparr>products := map withSearchableText productList, responseCache := []\<rparr>)"

subsection \<open>Candidate search and filtering\<close>

text \<open>\<^verbatim>\<open>index.get(key) || new Set()\<close>.\<close>

definition postings :: "posting_index \<Rightarrow> string \<Rightarrow> id_set" where
  "postings indexMap key = (case map_of indexMap key of None \<Rightarrow> [] | Some ids \<Rightarrow> ids)"

text \<open>
  One round of the \<^verbatim>\<open>forEach\<close> over the query's trigrams (or words): the first
  posting set is copied, every later one is intersected with the candidates so far.
\<close>

definition narrow :: "posting_index \<Rightarrow> id_set option \<Rightarrow> string \<Rightarrow> id_set option" where
  "narrow indexMap candidateIds key =
     (let matches = postings indexMap key
      in case candidateIds of
           None \<Rightarrow> Some matches
         | Some ids \<Rightarrow> Some (filter (\<lambda>i. i \<in> set matches) ids))"

definition intersectPostings :: "posting_index \<Rightarrow> string list \<Rightarrow> id_set option" where
  "intersectPostings indexMap keys = foldl (narrow indexMap) None keys"

text \<open>\<^verbatim>\<open>[...ids].map(id => productById.get(id)).filter(Boolean)\<close>.\<close>

definition materialize :: "catalog \<Rightarrow> id_set \<Rightarrow> product list" where
  "materialize s ids = List.map_filter (map_of (productById s)) ids"

datatype failure = TypeError

text \<open>
  The verification filter.  Reading \<^verbatim>\<open>.includes\<close> of an absent
  \<^verbatim>\<open>searchableText\<close> throws.
\<close>

definition verify :: "string \<Rightarrow> product list \<Rightarrow> failure + product list" where
  "verify normalizedQuery ps =
     (if \<exists>p \<in> set ps. searchableText p = None then Inl TypeError
      else Inr (filter (\<lambda>p. case searchableText p of
                               None \<Rightarrow> False
                             | Some t \<Rightarrow> js_includes t normalizedQuery) ps))"

text \<open>Lines 222 to 269 of the handler: the filtered products, before sorting.\<close>

definition candidatesFor :: "catalog \<Rightarrow> string \<Rightarrow> id_set option" where
  "candidatesFor s normalizedQuery =
     (let queryTrigrams = getTrigrams normalizedQuery;
          queryWords = getWords normalizedQuery
      in if queryTrigrams \<noteq> [] then intersectPostings (trigramIndex s) queryTrigrams
         else if queryWords \<noteq> [] then intersectPostings (wordIndex s) queryWords
         else None)"

definition filterProducts :: "catalog \<Rightarrow> string \<Rightarrow> string \<Rightarrow> failure + product list" where
  "filterProducts s search cat =
     (let normalizedQuery = (if search \<noteq> [] then normalizeText search else []);
          candidateIds = (if normalizedQuery \<noteq> [] then candidatesFor s normalizedQuery else None);
          searched =
            (if normalizedQuery \<noteq> [] then
               (case candidateIds of
                  None \<Rightarrow> Inr []
                | Some ids \<Rightarrow> if ids \<noteq> [] then verify normalizedQuery (materialize s ids)
                              else Inr [])
             else Inr (products s))
      in case searched of
           Inl e \<Rightarrow> Inl e
         | Inr filteredProducts \<Rightarrow>
             if cat \<noteq> [] then
               (let categoryMatches = postings (categoryIndex s) cat
                in if candidateIds = None then Inr (materialize s categoryMatches)
                   else Inr (filter (\<lambda>p. pid p \<in> set categoryMatches) filteredProducts))
             else Inr filteredProducts)"

subsection \<open>Sorting\<close>

text \<open>
  Modelled from the spec: \<^verbatim>\<open>_.orderBy\<close> belongs to the lodash package, which is a
  dependency and not among the sources.  The specification asks for a stable sort by the
  chosen field in the requested direction.  The model follows lodash's construction of
  one: every element is paired with its criterion and its position, the pairs are sorted
  by the criterion (negated for \<^verbatim>\<open>desc\<close>) and, between equal criteria, by position,
  and the elements are read back.  That comparison is a strict linear order on the pairs,
  so the sorted arrangement does not depend on the sorting routine; insertion is used.
\<close>

definition compareAscending :: "'k::linorder \<Rightarrow> 'k \<Rightarrow> int" where
  "compareAscending v other = (if other < v then 1 else if v < other then - 1 else 0)"

definition compareMultiple :: "string \<Rightarrow> ('k::linorder \<times> nat \<times> 'a) \<Rightarrow> ('k \<times> nat \<times> 'a) \<Rightarrow> int" where
  "compareMultiple ord object other =
     (let result = compareAscending (fst object) (fst other)
      in if result \<noteq> 0 then (if ord = ''desc'' then - result else result)
         else int (fst (snd object)) - int (fst (snd other)))"

fun insertBy :: "('b \<Rightarrow> 'b \<Rightarrow> int) \<Rightarrow> 'b \<Rightarrow> 'b list \<Rightarrow> 'b list" where
  "insertBy cmp x [] = [x]"
| "insertBy cmp x (y # ys) = (if cmp x y \<le> 0 then x # y # ys else y # insertBy cmp x ys)"

definition baseSortBy :: "('b \<Rightarrow> 'b \<Rightarrow> int) \<Rightarrow> 'b list \<Rightarrow> 'b list" where
  "baseSortBy cmp xs = foldr (insertBy cmp) xs []"

fun decorate :: "('a \<Rightarrow> 'k) \<Rightarrow> nat \<Rightarrow> 'a list \<Rightarrow> ('k \<times> nat \<times> 'a) list" where
  "decorate iteratee i [] = []"
| "decorate iteratee i (x # xs) = (iteratee x, i, x) # decorate iteratee (Suc i) xs"

definition orderBy :: "('a \<Rightarrow> 'k::linorder) \<Rightarrow> string \<Rightarrow> 'a list \<Rightarrow> 'a list" where
  "orderBy iteratee ord xs =
     map (\<lambda>d. snd (snd d)) (baseSortBy (compareMultiple ord) (decorate iteratee 0 xs))"

text \<open>
  \<^verbatim>\<open>_.orderBy(filteredProducts, [sortBy], [sortOrder])\<close> with the field chosen by name.
  Text fields compare by code units.  A name outside the allow-list selects a property
  that no product has, all criteria are equal and the order is kept.
\<close>

definition sortProducts :: "string \<Rightarrow> string \<Rightarrow> product list \<Rightarrow> product list" where
  "sortProducts sortBy sortOrder ps =
     (if sortBy = ''name'' then orderBy name sortOrder ps
      else if sortBy = ''price'' then orderBy price sortOrder ps
      else if sortBy = ''category'' then orderBy category sortOrder ps
      else if sortBy = ''brand'' then orderBy brand sortOrder ps
      else if sortBy = ''stock'' then orderBy stock sortOrder ps
      else if sortBy = ''rating'' then orderBy rating sortOrder ps
      else if sortBy = ''createdAt'' then orderBy createdAt sortOrder ps
      else ps)"

definition sortStage :: "params \<Rightarrow> product list \<Rightarrow> product list" where
  "sortStage p filteredProducts =
     (if length filteredProducts > 1
      then sortProducts (q_sortBy p) (q_sortOrder p) filteredProducts
      else filteredProducts)"

subsection \<open>Pagination\<close>

text \<open>\<^verbatim>\<open>Math.ceil(n / limit)\<close>.\<close>

definition pageCount :: "nat \<Rightarrow> nat \<Rightarrow> nat" where
  "pageCount n limit = nat \<lceil>(of_nat n :: rat) / of_nat limit\<rceil>"

definition paginate :: "params \<Rightarrow> 'a list \<Rightarrow> 'a list" where
  "paginate p xs =
     (let startIndex = (q_page p - 1) * q_limit p
      in slice xs startIndex (startIndex + q_limit p))"

definition buildPayload :: "params \<Rightarrow> product list \<Rightarrow> payload" where
  "buildPayload p filteredProducts =
     (let n = pageCount (length filteredProducts) (q_limit p)
      in \<lparr> resp_products = map toPublicProduct (paginate p filteredProducts),
           resp_pagination =
             \<lparr> currentPage = q_page p,
               totalPages = n,
               totalItems = length filteredProducts,
               itemsPerPage = q_limit p,
               nextPage = (if q_page p \<ge> n then None else Some (p\<lparr>q_page := q_page p + 1\<rparr>)),
               prevPage = (if q_page p > 1 then Some (p\<lparr>q_page := q_page p - 1\<rparr>) else None) \<rparr> \<rparr>)"

subsection \<open>The cache key\<close>

text \<open>\<^verbatim>\<open>Number.prototype.toString\<close> on a non-negative integer (below \<open>10\<^sup>2\<^sup>1\<close>).\<close>

definition digitChar :: "nat \<Rightarrow> char" where
  "digitChar d = char_of (48 + d)"

function showNat :: "nat \<Rightarrow> string" where
  "showNat n = (if n < 10 then [digitChar n] else showNat (n div 10) @ [digitChar (n mod 10)])"
  by pat_completeness auto
termination
  by (relation "measure id") auto

declare showNat.simps [simp del]

text \<open>
  \<^verbatim>\<open>JSON.stringify\<close> on the values that occur in the key: a number, a string, and an
  object whose properties are numbers and strings, written in insertion order.
\<close>

datatype json = JNumber nat | JString string

definition hexDigit :: "nat \<Rightarrow> char" where
  "hexDigit d = (if d < 10 then char_of (48 + d) else char_of (87 + d))"

definition quoteChar :: "char \<Rightarrow> string" where
  "quoteChar c =
     (let n = code_unit c
      in if n = 8 then [CHR 0x5C, CHR ''b'']
         else if n = 9 then [CHR 0x5C, CHR ''t'']
         else if n = 10 then [CHR 0x5C, CHR ''n'']
         else if n = 12 then [CHR 0x5C, CHR ''f'']
         else if n = 13 then [CHR 0x5C, CHR ''r'']
         else if n = 34 then [CHR 0x5C, CHR 0x22]
         else if n = 92 then [CHR 0x5C, CHR 0x5C]
         else if n < 32 then [CHR 0x5C, CHR ''u'', CHR ''0'', CHR ''0'',
                              hexDigit (n div 16), hexDigit (n mod 16)]
         else [c])"

definition quoteJSON :: "string \<Rightarrow> string" where
  "quoteJSON s = [CHR 0x22] @ concat (map quoteChar s) @ [CHR 0x22]"

fun stringifyValue :: "json \<Rightarrow> string" where
  "stringifyValue (JNumber n) = showNat n"
| "stringifyValue (JString s) = quoteJSON s"

definition stringifyProperty :: "string \<times> json \<Rightarrow> string" where
  "stringifyProperty kv = quoteJSON (fst kv) @ '':'' @ stringifyValue (snd kv)"

fun joinComma :: "string list \<Rightarrow> string" where
  "joinComma [] = []"
| "joinComma [x] = x"
| "joinComma (x # y # zs) = x @ '','' @ joinComma (y # zs)"

definition stringifyObject :: "(string \<times> json) list \<Rightarrow> string" where
  "stringifyObject obj = ''{'' @ joinComma (map stringifyProperty obj) @ ''}''"

definition getCacheKey :: "(string \<times> json) list \<Rightarrow> string" where
  "getCacheKey obj = stringifyObject obj"

text \<open>The object literal \<^verbatim>\<open>{ page, limit, search, category, sortBy, sortOrder }\<close>.\<close>

definition paramsObject :: "params \<Rightarrow> (string \<times> json) list" where
  "paramsObject p =
     [(''page'', JNumber (q_page p)), (''limit'', JNumber (q_limit p)),
      (''search'', JString (q_search p)), (''category'', JString (q_category p)),
      (''sortBy'', JString (q_sortBy p)), (''sortOrder'', JString (q_sortOrder p))]"

subsection \<open>The response cache\<close>

definition CACHE_TTL_MS :: int where
  "CACHE_TTL_MS = 30 * 1000"

definition getCachedResponse :: "int \<Rightarrow> string \<Rightarrow> catalog \<Rightarrow> cache_entry option \<times> catalog" where
  "getCachedResponse now cacheKey s =
     (case map_of (responseCache s) cacheKey of
        None \<Rightarrow> (None, s)
      | Some cached \<Rightarrow>
          if expiresAt cached < now
          then (None, s\<lparr>responseCache := AList.delete cacheKey (responseCache s)\<rparr>)
          else (Some cached, s))"

definition setCachedResponse ::
    "int \<Rightarrow> string \<Rightarrow> payload \<Rightarrow> (string \<times> string) list \<Rightarrow> catalog \<Rightarrow> catalog" where
  "setCachedResponse now cacheKey pl hs s =
     s\<lparr>responseCache :=
         AList.update cacheKey \<lparr> ce_payload = pl, ce_headers = hs, expiresAt = now + CACHE_TTL_MS \<rparr>
           (responseCache s)\<rparr>"

subsection \<open>Requests and their environment\<close>

text \<open>
  What a handler reads from outside the module: the list that \<^verbatim>\<open>generateProducts\<close>
  would draw at this moment (its prices, categories, brands, stocks and ratings are
  random), the clock at the cache lookup and at the cache store, the text of
  \<^verbatim>\<open>new Date().toISOString()\<close>, and, for the authentication middleware, the
  \<^verbatim>\<open>authorization\<close> header, the configured secret and what \<^verbatim>\<open>jwt.verify\<close> makes of
  the token.
\<close>

datatype verified = Rejected | Claims "string option" "string option" "string option"

record env =
  generated :: "product list"
  clockLookup :: int
  clockStore :: int
  isoNow :: string
  authorization :: "string option"
  JWT_SECRET :: string
  jwtVerify :: "string \<Rightarrow> verified"

text \<open>
  The query string of \<^verbatim>\<open>GET /\<close>.  For \<^verbatim>\<open>page\<close> and \<^verbatim>\<open>limit\<close> the record holds the
  value of \<^verbatim>\<open>Number(req.query.page || 1)\<close> and \<^verbatim>\<open>Number(req.query.limit || 25)\<close>, with
  \<open>None\<close> for a result that is not finite; the other four are the parameter's text, or
  \<open>None\<close> when it is absent.
\<close>

record request =
  rawPage :: "rat option"
  rawLimit :: "rat option"
  r_search :: "string option"
  r_category :: "string option"
  r_sortBy :: "string option"
  r_sortOrder :: "string option"

definition DEFAULT_LIMIT :: nat where
  "DEFAULT_LIMIT = 25"

definition MAX_LIMIT :: nat where
  "MAX_LIMIT = 100"

definition ALLOWED_SORT_FIELDS :: "string list" where
  "ALLOWED_SORT_FIELDS =
     [''name'', ''price'', ''category'', ''brand'', ''stock'', ''rating'', ''createdAt'']"

definition isInteger :: "rat \<Rightarrow> bool" where
  "isInteger r = (of_int \<lfloor>r\<rfloor> = r)"

text \<open>\<^verbatim>\<open>v ? String(v) : ''\<close> and \<^verbatim>\<open>v || ''\<close> on a text that may be absent.\<close>

definition orEmpty :: "string option \<Rightarrow> string" where
  "orEmpty v = (case v of None \<Rightarrow> [] | Some t \<Rightarrow> t)"

text \<open>Lines 206 to 213: defaults and clamping.\<close>

definition readParams :: "request \<Rightarrow> params" where
  "readParams req =
     \<lparr> q_page = (case rawPage req of
                    Some r \<Rightarrow> if isInteger r \<and> r > 0 then nat \<lfloor>r\<rfloor> else 1
                  | None \<Rightarrow> 1),
       q_limit = (case rawLimit req of
                    Some r \<Rightarrow> if isInteger r then nat \<lfloor>min (max r 1) (of_nat MAX_LIMIT)\<rfloor>
                              else DEFAULT_LIMIT
                  | None \<Rightarrow> DEFAULT_LIMIT),
       q_search = orEmpty (r_search req),
       q_category = orEmpty (r_category req),
       q_sortBy = (case r_sortBy req of
                     Some f \<Rightarrow> if f \<in> set ALLOWED_SORT_FIELDS then f else ''name''
                   | None \<Rightarrow> ''name''),
       q_sortOrder = (if r_sortOrder req = Some ''desc'' then ''desc'' else ''asc'') \<rparr>"

datatype response =
    ProductList payload "(string \<times> string) list"
  | ProductCreated public_product
  | ProductUpdated public_product
  | ProductDeleted
  | InvalidProductId
  | ValidationFailed "string list"
  | ProductNotFound
  | AuthenticationRequired
  | InvalidToken
  | AuthNotConfigured
  | AdminRequired
  | InternalServerError

fun status :: "response \<Rightarrow> nat" where
  "status (ProductList _ _) = 200"
| "status (ProductCreated _) = 201"
| "status (ProductUpdated _) = 200"
| "status ProductDeleted = 200"
| "status InvalidProductId = 400"
| "status (ValidationFailed _) = 400"
| "status ProductNotFound = 404"
| "status AuthenticationRequired = 401"
| "status InvalidToken = 401"
| "status AuthNotConfigured = 500"
| "status AdminRequired = 403"
| "status InternalServerError = 500"

subsection \<open>Reading the catalogue\<close>

definition generateProducts :: "env \<Rightarrow> catalog \<Rightarrow> catalog" where
  "generateProducts e s = buildIndexes (generated e) (s\<lparr>products := generated e\<rparr>)"

definition ensureProductsFresh :: "env \<Rightarrow> catalog \<Rightarrow> catalog" where
  "ensureProductsFresh e s = (if products s = [] then generateProducts e s else s)"

text \<open>Lines 222 to 292: the response computed when the cache has no answer.\<close>

definition computeResponse :: "catalog \<Rightarrow> params \<Rightarrow> failure + payload \<times> (string \<times> string) list" where
  "computeResponse s p =
     (case filterProducts s (q_search p) (q_category p) of
        Inl e \<Rightarrow> Inl e
      | Inr filtered \<Rightarrow>
          (let filteredProducts = sortStage p filtered
           in Inr (buildPayload p filteredProducts,
                   [(''X-Total-Count'', showNat (length filteredProducts))])))"

text \<open>\<^verbatim>\<open>router.get('/')\<close>; a thrown error is answered with status 500.\<close>

definition listProducts :: "env \<Rightarrow> request \<Rightarrow> catalog \<Rightarrow> response \<times> catalog" where
  "listProducts e req s0 =
     (let s = ensureProductsFresh e s0;
          p = readParams req;
          cacheKey = getCacheKey (paramsObject p)
      in case getCachedResponse (clockLookup e) cacheKey s of
           (Some cached, s1) \<Rightarrow> (ProductList (ce_payload cached) (ce_headers cached), s1)
         | (None, s1) \<Rightarrow>
             (case computeResponse s1 p of
                Inl _ \<Rightarrow> (InternalServerError, s1)
              | Inr (responsePayload, headers) \<Rightarrow>
                  (ProductList responsePayload headers,
                   setCachedResponse (clockStore e) cacheKey responsePayload headers s1)))"

subsection \<open>The authentication middleware\<close>

text \<open>\<^verbatim>\<open>authHeader.split(' ')\<close>: the pieces between single spaces.\<close>

fun splitOnSpace :: "string \<Rightarrow> string \<Rightarrow> string list" where
  "splitOnSpace cur [] = [rev cur]"
| "splitOnSpace cur (c # cs) =
     (if c = CHR '' '' then rev cur # splitOnSpace [] cs else splitOnSpace (c # cur) cs)"

definition getTokenFromRequest :: "env \<Rightarrow> string option" where
  "getTokenFromRequest e =
     (case splitOnSpace [] (orEmpty (authorization e)) of
        scheme # token # _ \<Rightarrow> if scheme \<noteq> ''Bearer'' \<or> token = [] then None else Some token
      | _ \<Rightarrow> None)"

text \<open>
  \<^verbatim>\<open>authenticate\<close> answers with an error response, or passes on the user's id and
  role.  \<^verbatim>\<open>jwt.verify\<close> belongs to a dependency; the environment tells whether it
  throws and, if not, the \<^verbatim>\<open>sub\<close>, \<^verbatim>\<open>id\<close> and \<^verbatim>\<open>role\<close> of the token.
\<close>

definition authenticate :: "env \<Rightarrow> response + string \<times> string" where
  "authenticate e =
     (case getTokenFromRequest e of
        None \<Rightarrow> Inl AuthenticationRequired
      | Some token \<Rightarrow>
          if JWT_SECRET e = [] then Inl AuthNotConfigured
          else (case jwtVerify e token of
                  Rejected \<Rightarrow> Inl InvalidToken
                | Claims sub ident role \<Rightarrow>
                    (let userId = (if orEmpty sub \<noteq> [] then orEmpty sub else orEmpty ident);
                         userRole = (if orEmpty role \<noteq> [] then orEmpty role else ''user'')
                     in if userId = [] then Inl InvalidToken else Inr (userId, userRole))))"

definition requireAdmin :: "env \<Rightarrow> response option" where
  "requireAdmin e =
     (case authenticate e of
        Inl r \<Rightarrow> Some r
      | Inr user \<Rightarrow> if snd user \<noteq> ''admin'' then Some AdminRequired else None)"

subsection \<open>Validation and sanitising of a submitted product\<close>

text \<open>
  The JSON body of a create or update request, with every property of the type the API
  documents (text, number, array of text) or absent.  \<^verbatim>\<open>tags\<close> may also be some value
  that is not an array.
\<close>

datatype tags_input = TagArray "string list" | NotAnArray

record body =
  b_name :: "string option"
  b_description :: "string option"
  b_price :: "rat option"
  b_category :: "string option"
  b_brand :: "string option"
  b_stock :: "rat option"
  b_tags :: "tags_input option"

text \<open>
  Three functions of the validator package, a dependency: \<^verbatim>\<open>isLength\<close> bounds the
  number of characters, \<^verbatim>\<open>escape\<close> replaces the eight characters
  \<^verbatim>\<open>& " ' < > / \ `\<close> by HTML entities, and \<^verbatim>\<open>isInt(str, { min: 1 })\<close> accepts an
  optional sign followed by decimal digits whose value is at least one.
\<close>

definition isLength :: "string \<Rightarrow> nat \<Rightarrow> nat \<Rightarrow> bool" where
  "isLength str lo hi = (lo \<le> length str \<and> length str \<le> hi)"

definition escapeChar :: "char \<Rightarrow> string" where
  "escapeChar c =
     (if c = CHR ''&'' then ''&amp;''
      else if c = CHR 0x22 then ''&quot;''
      else if c = CHR 0x27 then ''&#x27;''
      else if c = CHR ''<'' then ''&lt;''
      else if c = CHR ''>'' then ''&gt;''
      else if c = CHR ''/'' then ''&#x2F;''
      else if c = CHR 0x5C then ''&#x5C;''
      else if c = CHR 0x60 then ''&#96;''
      else [c])"

definition escape :: "string \<Rightarrow> string" where
  "escape str = concat (map escapeChar str)"

definition isDigit :: "char \<Rightarrow> bool" where
  "isDigit c = (48 \<le> code_unit c \<and> code_unit c \<le> 57)"

definition digitsValue :: "string \<Rightarrow> nat" where
  "digitsValue ds = foldl (\<lambda>acc c. 10 * acc + (code_unit c - 48)) 0 ds"

definition isInt_min1 :: "string \<Rightarrow> bool" where
  "isInt_min1 str =
     (case str of
        [] \<Rightarrow> False
      | c # cs \<Rightarrow>
          if c = CHR ''-'' then False
          else (let ds = (if c = CHR ''+'' then cs else str)
                in ds \<noteq> [] \<and> list_all isDigit ds \<and> 1 \<le> digitsValue ds))"

definition sanitizeText :: "string option \<Rightarrow> string" where
  "sanitizeText v = escape (trim (orEmpty v))"

definition validateProductInput :: "body \<Rightarrow> bool \<Rightarrow> string list" where
  "validateProductInput productData partial =
     (if (\<not> partial \<or> b_name productData \<noteq> None)
          \<and> (orEmpty (b_name productData) = [] \<or> \<not> isLength (orEmpty (b_name productData)) 2 120)
      then [''Name must be between 2 and 120 characters.''] else [])
     @ (if (\<not> partial \<or> b_description productData \<noteq> None)
          \<and> orEmpty (b_description productData) \<noteq> []
          \<and> \<not> isLength (orEmpty (b_description productData)) 0 500
        then [''Description must be 500 characters or less.''] else [])
     @ (if (\<not> partial \<or> b_price productData \<noteq> None)
          \<and> (case b_price productData of None \<Rightarrow> True | Some priceValue \<Rightarrow> priceValue \<le> 0)
        then [''Price must be a positive number.''] else [])
     @ (if (\<not> partial \<or> b_category productData \<noteq> None)
          \<and> (orEmpty (b_category productData) = []
               \<or> \<not> isLength (orEmpty (b_category productData)) 2 60)
        then [''Category must be between 2 and 60 characters.''] else [])
     @ (if (\<not> partial \<or> b_brand productData \<noteq> None)
          \<and> orEmpty (b_brand productData) \<noteq> []
          \<and> \<not> isLength (orEmpty (b_brand productData)) 2 60
        then [''Brand must be between 2 and 60 characters.''] else [])
     @ (if (\<not> partial \<or> b_stock productData \<noteq> None)
          \<and> (let stockValue = (case b_stock productData of None \<Rightarrow> 0 | Some v \<Rightarrow> v)
               in \<not> isInteger stockValue \<or> stockValue < 0)
        then [''Stock must be a non-negative integer.''] else [])
     @ (if b_tags productData = Some NotAnArray
        then [''Tags must be an array of strings.''] else [])"

definition sanitizeTags :: "tags_input option \<Rightarrow> string list" where
  "sanitizeTags t = (case t of Some (TagArray ts) \<Rightarrow> map (\<lambda>v. sanitizeText (Some v)) ts | _ \<Rightarrow> [])"

subsection \<open>Creating, updating and deleting\<close>

text \<open>
  \<^verbatim>\<open>parseInt(text, 10)\<close>: leading white space, an optional sign and the longest run of
  digits; \<open>None\<close> is \<^verbatim>\<open>NaN\<close>.
\<close>

definition parseInt :: "string \<Rightarrow> int option" where
  "parseInt str =
     (let t = dropWhile isSpace str;
          neg = (t \<noteq> [] \<and> hd t = CHR ''-'');
          u = (if t \<noteq> [] \<and> (hd t = CHR ''-'' \<or> hd t = CHR ''+'') then tl t else t);
          ds = takeWhile isDigit u
      in if ds = [] then None
         else Some (if neg then - int (digitsValue ds) else int (digitsValue ds)))"

definition showInt :: "int \<Rightarrow> string" where
  "showInt i = (if i < 0 then ''-'' @ showNat (nat (- i)) else showNat (nat i))"

text \<open>
  \<^verbatim>\<open>(Math.max(...products.map(p => parseInt(p.id, 10))) + 1).toString()\<close>: one
  \<^verbatim>\<open>NaN\<close> makes the maximum \<^verbatim>\<open>NaN\<close>, and the maximum of nothing is
  \<^verbatim>\<open>-Infinity\<close>.
\<close>

definition nextId :: "product list \<Rightarrow> string" where
  "nextId ps =
     (let ns = map (\<lambda>p. parseInt (pid p)) ps
      in if None \<in> set ns then ''NaN''
         else if ns = [] then ''-Infinity''
         else showInt (Max (set (map the ns)) + 1))"

text \<open>
  The new product of \<^verbatim>\<open>router.post('/')\<close>.  The price is present once validation has
  passed; the cost price is seven tenths of it.
\<close>

definition newProductOf :: "env \<Rightarrow> catalog \<Rightarrow> body \<Rightarrow> product" where
  "newProductOf e s productData =
     (let pr = (case b_price productData of None \<Rightarrow> 0 | Some v \<Rightarrow> v)
      in \<lparr> pid = nextId (products s),
           name = sanitizeText (b_name productData),
           description = sanitizeText (b_description productData),
           price = pr,
           category = sanitizeText (b_category productData),
           brand = sanitizeText (b_brand productData),
           stock = (case b_stock productData of None \<Rightarrow> 0 | Some v \<Rightarrow> v),
           rating = 0,
           tags = sanitizeTags (b_tags productData),
           createdAt = isoNow e,
           costPrice = pr * (7 / 10),
           supplier = ''Unknown'',
           internalNotes = [],
           adminOnly = False,
           searchableText = None \<rparr>)"

definition createProduct :: "env \<Rightarrow> body \<Rightarrow> catalog \<Rightarrow> response \<times> catalog" where
  "createProduct e productData s0 =
     (case requireAdmin e of
        Some r \<Rightarrow> (r, s0)
      | None \<Rightarrow>
          (let s = ensureProductsFresh e s0;
               errors = validateProductInput productData False
           in if errors \<noteq> [] then (ValidationFailed errors, s)
              else (let newProduct = newProductOf e s productData;
                        s1 = s\<lparr>products := products s @ [newProduct]\<rparr>
                    in (ProductCreated (toPublicProduct newProduct),
                        buildIndexes (products s1) s1))))"

text \<open>\<^verbatim>\<open>findIndex\<close>: the position of the first match; \<open>None\<close> is \<open>-1\<close>.\<close>

fun findIndex :: "('a \<Rightarrow> bool) \<Rightarrow> 'a list \<Rightarrow> nat option" where
  "findIndex P [] = None"
| "findIndex P (x # xs) = (if P x then Some 0 else map_option Suc (findIndex P xs))"

text \<open>Lines 406 to 415: the copy of the stored product with the supplied fields replaced.\<close>

definition applyUpdate :: "body \<Rightarrow> product \<Rightarrow> product" where
  "applyUpdate updateData stored =
     (let u1 = (if b_name updateData \<noteq> None
                then stored\<lparr>name := sanitizeText (b_name updateData)\<rparr> else stored);
          u2 = (if b_description updateData \<noteq> None
                then u1\<lparr>description := sanitizeText (b_description updateData)\<rparr> else u1);
          u3 = (case b_price updateData of None \<Rightarrow> u2 | Some v \<Rightarrow> u2\<lparr>price := v\<rparr>);
          u4 = (if b_category updateData \<noteq> None
                then u3\<lparr>category := sanitizeText (b_category updateData)\<rparr> else u3);
          u5 = (if b_brand updateData \<noteq> None
                then u4\<lparr>brand := sanitizeText (b_brand updateData)\<rparr> else u4);
          u6 = (case b_stock updateData of None \<Rightarrow> u5 | Some v \<Rightarrow> u5\<lparr>stock := v\<rparr>)
      in if b_tags updateData \<noteq> None
         then u6\<lparr>tags := sanitizeTags (b_tags updateData)\<rparr> else u6)"

definition updateProduct :: "env \<Rightarrow> string \<Rightarrow> body \<Rightarrow> catalog \<Rightarrow> response \<times> catalog" where
  "updateProduct e productId updateData s0 =
     (case requireAdmin e of
        Some r \<Rightarrow> (r, s0)
      | None \<Rightarrow>
          (let s = ensureProductsFresh e s0
           in if \<not> isInt_min1 productId then (InvalidProductId, s)
              else (let errors = validateProductInput updateData True
                    in if errors \<noteq> [] then (ValidationFailed errors, s)
                       else (case findIndex (\<lambda>p. pid p = productId) (products s) of
                               None \<Rightarrow> (ProductNotFound, s)
                             | Some productIndex \<Rightarrow>
                                 (let updatedProduct =
                                        applyUpdate updateData (products s ! productIndex);
                                      s1 = s\<lparr>products :=
                                              (products s)[productIndex := updatedProduct]\<rparr>
                                  in (ProductUpdated (toPublicProduct updatedProduct),
                                      buildIndexes (products s1) s1))))))"

definition deleteProduct :: "env \<Rightarrow> string \<Rightarrow> catalog \<Rightarrow> response \<times> catalog" where
  "deleteProduct e productId s0 =
     (case requireAdmin e of
        Some r \<Rightarrow> (r, s0)
      | None \<Rightarrow>
          (let s = ensureProductsFresh e s0
           in if \<not> isInt_min1 productId then (InvalidProductId, s)
              else (case findIndex (\<lambda>p. pid p = productId) (products s) of
                      None \<Rightarrow> (ProductNotFound, s)
                    | Some productIndex \<Rightarrow>
                        (let s1 = s\<lparr>products :=
                                    take productIndex (products s)
                                    @ drop (Suc productIndex) (products s)\<rparr>
                         in (ProductDeleted, buildIndexes (products s1) s1)))))"

text \<open>The three mutations of the public API, and a run of requests.\<close>

datatype mutation = Create body | Update string body | Delete string

fun mutate :: "env \<Rightarrow> mutation \<Rightarrow> catalog \<Rightarrow> response \<times> catalog" where
  "mutate e (Create b) s = createProduct e b s"
| "mutate e (Update i b) s = updateProduct e i b s"
| "mutate e (Delete i) s = deleteProduct e i s"

fun succeeded :: "response \<Rightarrow> bool" where
  "succeeded (ProductCreated _) = True"
| "succeeded (ProductUpdated _) = True"
| "succeeded ProductDeleted = True"
| "succeeded _ = False"

datatype operation = Read request | Write mutation

fun perform :: "env \<Rightarrow> operation \<Rightarrow> catalog \<Rightarrow> response \<times> catalog" where
  "perform e (Read req) s = listProducts e req s"
| "perform e (Write m) s = mutate e m s"

fun afterRequests :: "(env \<times> operation) list \<Rightarrow> catalog \<Rightarrow> catalog" where
  "afterRequests [] s = s"
| "afterRequests (r # rs) s = afterRequests rs (snd (perform (fst r) (snd r) s))"

subsection \<open>Notions used in the statements\<close>

text \<open>The criterion that \<^const>\<open>sortProducts\<close> sorts by: a text or a number.\<close>

definition sortKey :: "string \<Rightarrow> product \<Rightarrow> string + rat" where
  "sortKey sortBy p =
     (if sortBy = ''name'' then Inl (name p)
      else if sortBy = ''price'' then Inr (price p)
      else if sortBy = ''category'' then Inl (category p)
      else if sortBy = ''brand'' then Inl (brand p)
      else if sortBy = ''stock'' then Inr (stock p)
      else if sortBy = ''rating'' then Inr (rating p)
      else if sortBy = ''createdAt'' then Inl (createdAt p)
      else Inl [])"

text \<open>
  A state is indexed when a rebuild from its own products would change nothing but the
  cache: the products carry their \<^verbatim>\<open>searchableText\<close> and the four indexes are those
  of the products.  Every handler leaves the module in such a state.
\<close>

definition indexed :: "catalog \<Rightarrow> bool" where
  "indexed s \<longleftrightarrow> buildIndexes (products s) s = s\<lparr>responseCache := []\<rparr>"

text \<open>
  The cache is coherent when every entry holds, under the key of some parameters, the
  response that the state computes for those parameters.
\<close>

definition cacheCoherent :: "catalog \<Rightarrow> bool" where
  "cacheCoherent s \<longleftrightarrow>
     (\<forall>k c. map_of (responseCache s) k = Some c \<longrightarrow>
        (\<exists>p. k = getCacheKey (paramsObject p)
             \<and> computeResponse s p = Inr (ce_payload c, ce_headers c)))"

text \<open>The answer of \<^verbatim>\<open>GET /\<close> when nothing is taken from the cache.\<close>

definition freshResponse :: "env \<Rightarrow> request \<Rightarrow> catalog \<Rightarrow> response" where
  "freshResponse e req s =
     (case computeResponse (ensureProductsFresh e s) (readParams req) of
        Inl _ \<Rightarrow> InternalServerError
      | Inr (pl, hs) \<Rightarrow> ProductList pl hs)"

text \<open>
  A text is spaced when every white-space character in it is a space that no other
  white-space character follows; this is what \<^const>\<open>collapseSpaces\<close> establishes.
\<close>

fun spaced :: "string \<Rightarrow> bool" where
  "spaced [] = True"
| "spaced [c] = (isSpace c \<longrightarrow> c = CHR '' '')"
| "spaced (c # d # r) = ((isSpace c \<longrightarrow> c = CHR '' '' \<and> \<not> isSpace d) \<and> spaced (d # r))"

text \<open>
  The generator numbers its products \<open>1, 2, 3, \<dots>\<close> in order (the source draws
  \<^verbatim>\<open>PRODUCT_COUNT = 1000\<close> of them), and the ids of a catalogue are canonical when they
  are pairwise different decimal numerals.
\<close>

definition numbered :: "product list \<Rightarrow> bool" where
  "numbered ps \<longleftrightarrow> ps \<noteq> [] \<and> map pid ps = map showNat [1..<Suc (length ps)]"

definition canonicalIds :: "product list \<Rightarrow> bool" where
  "canonicalIds ps \<longleftrightarrow> distinct (map pid ps) \<and> (\<forall>p \<in> set ps. \<exists>n. pid p = showNat n)"

subsection \<open>A small catalogue\<close>

text \<open>
  The module state when the file is loaded, before the first call of
  \<^verbatim>\<open>generateProducts\<close>, and three products such as the generator could draw.
\<close>

definition emptyCatalog :: catalog where
  "emptyCatalog =
     \<lparr> products = [], productById = [], trigramIndex = [], wordIndex = [],
       categoryIndex = [], responseCache = [] \<rparr>"

definition redShoe :: product where
  "redShoe =
     \<lparr> pid = ''1'', name = ''Red Shoe'', description = ''a shoe'', price = 30,
       category = ''Clothing'', brand = ''BrandA'', stock = 4, rating = 4, tags = [],
       createdAt = ''2024-01-01T00:00:00.000Z'', costPrice = 12, supplier = ''Supplier 1'',
       internalNotes = [], adminOnly = False, searchableText = None \<rparr>"

definition blueShoe :: product where
  "blueShoe = redShoe\<lparr> pid := ''2'', name := ''Blue Shoe'', price := 20 \<rparr>"

definition redHat :: product where
  "redHat =
     redShoe\<lparr> pid := ''3'', name := ''Red Hat'', description := ''a hat of felt'',
              price := 20,
              category := ''Sports'' \<rparr>"

definition demoEnv :: env where
  "demoEnv =
     \<lparr> generated = [redShoe, blueShoe, redHat], clockLookup = 1000, clockStore = 1001,
       isoNow = ''2024-02-02T00:00:00.000Z'', authorization = Some ''Bearer token'',
       JWT_SECRET = ''secret'',
       jwtVerify = (\<lambda>_. Claims (Some ''admin-1'') None (Some ''admin'')) \<rparr>"

definition plainRequest :: request where
  "plainRequest =
     \<lparr> rawPage = None, rawLimit = None, r_search = None, r_category = None,
       r_sortBy = None, r_sortOrder = None \<rparr>"

definition noChange :: body where
  "noChange =
     \<lparr> b_name = None, b_description = None, b_price = None, b_category = None,
       b_brand = None, b_stock = None, b_tags = None \<rparr>"

section \<open>Properties of the index rebuild\<close>

subsection \<open>What one product leaves untouched\<close>

lemma indexProduct_frame:
  "products (indexProduct s p) = products s"
  "responseCache (indexProduct s p) = responseCache s"
  by (simp_all add: indexProduct_def Let_def)

lemma foldl_indexProduct_frame:
  "products (foldl indexProduct s ps) = products s
   \<and> responseCache (foldl indexProduct s ps) = responseCache s"
  by (induction ps arbitrary: s) (simp_all add: indexProduct_frame)

lemma textOf_withSearchableText [simp]: "textOf (withSearchableText p) = textOf p"
  by (simp add: textOf_def withSearchableText_def)

lemma indexProduct_withSearchableText [simp]:
  "indexProduct s (withSearchableText p) = indexProduct s p"
  by (simp add: indexProduct_def withSearchableText_def textOf_def)

lemma foldl_indexProduct_map:
  "foldl indexProduct s (map withSearchableText ps) = foldl indexProduct s ps"
  by (induction ps arbitrary: s) simp_all

lemma withSearchableText_idem [simp]:
  "withSearchableText (withSearchableText p) = withSearchableText p"
  by (simp add: withSearchableText_def textOf_def)

lemma indexProduct_upd:
  "indexProduct (s\<lparr>products := a, responseCache := b\<rparr>) p
     = (indexProduct s p)\<lparr>products := a, responseCache := b\<rparr>"
  by (simp add: indexProduct_def Let_def)

lemma foldl_indexProduct_upd:
  "foldl indexProduct (s\<lparr>products := a, responseCache := b\<rparr>) ps
     = (foldl indexProduct s ps)\<lparr>products := a, responseCache := b\<rparr>"
  by (induction ps arbitrary: s) (simp_all add: indexProduct_upd)

text \<open>The rebuild overwrites every component of the state, so the old state is irrelevant.\<close>

lemma buildIndexes_any: "buildIndexes ps (s::catalog) = buildIndexes ps s'"
proof -
  have "s\<lparr>productById := [], trigramIndex := [], wordIndex := [], categoryIndex := []\<rparr>
      = (s'\<lparr>productById := [], trigramIndex := [], wordIndex := [], categoryIndex := []\<rparr>)
          \<lparr>products := products s, responseCache := responseCache s\<rparr>"
    by simp
  then show ?thesis
    unfolding buildIndexes_def Let_def
    by (simp only: foldl_indexProduct_upd) simp
qed

lemma buildIndexes_products: "products (buildIndexes ps s) = map withSearchableText ps"
  by (simp add: buildIndexes_def Let_def)

lemma buildIndexes_cache: "responseCache (buildIndexes ps s) = []"
  by (simp add: buildIndexes_def Let_def)

lemma buildIndexes_again:
  "buildIndexes (products (buildIndexes ps s)) s' = buildIndexes ps (s::catalog)"
proof -
  have "buildIndexes (map withSearchableText ps) s' = buildIndexes ps s'"
    by (simp add: buildIndexes_def Let_def foldl_indexProduct_map)
  then show ?thesis
    using buildIndexes_any[of ps s' s] by (simp add: buildIndexes_products)
qed

subsection \<open>Rebuilding twice\<close>

text \<open>
  Claim C9.  Rebuilding from a product collection and then rebuilding again from the
  collection as the first rebuild left it gives the same state: the same primary, word,
  trigram and category index, the same products with the same \<^verbatim>\<open>searchableText\<close>, and
  an empty cache.  The outcome does not depend on what the indexes or the cache held
  before the rebuild.
\<close>

theorem buildIndexes_idempotent:
  "buildIndexes (products (buildIndexes ps s)) (buildIndexes ps s) = buildIndexes ps s
   \<and> buildIndexes ps s' = buildIndexes ps (s::catalog)"
  using buildIndexes_again[of ps s "buildIndexes ps s"] buildIndexes_any[of ps s' s]
  by simp

section \<open>The cache key\<close>

subsection \<open>Decimal numerals\<close>

lemma code_unit_digitChar: "d < 10 \<Longrightarrow> code_unit (digitChar d) = 48 + d"
  by (simp add: code_unit_def digitChar_def)

lemma showNat_digits: "c \<in> set (showNat n) \<Longrightarrow> isDigit c"
proof (induction n arbitrary: c rule: showNat.induct)
  case (1 n)
  show ?case
  proof (cases "n < 10")
    case True
    with "1.prems" show ?thesis
      by (subst (asm) showNat.simps) (simp add: isDigit_def code_unit_digitChar)
  next
    case False
    have "n mod 10 < 10" by simp
    then have "isDigit (digitChar (n mod 10))"
      by (simp add: isDigit_def code_unit_digitChar)
    from False "1.prems" have "c \<in> set (showNat (n div 10)) \<or> c = digitChar (n mod 10)"
      by (subst (asm) showNat.simps) auto
    with False "1.IH" \<open>isDigit (digitChar (n mod 10))\<close> show ?thesis by auto
  qed
qed

lemma digitsValue_snoc: "digitsValue (ds @ [c]) = 10 * digitsValue ds + (code_unit c - 48)"
  by (simp add: digitsValue_def)

lemma digitsValue_showNat: "digitsValue (showNat n) = n"
proof (induction n rule: showNat.induct)
  case (1 n)
  show ?case
  proof (cases "n < 10")
    case True
    then show ?thesis
      by (subst showNat.simps) (simp add: digitsValue_def code_unit_digitChar)
  next
    case False
    have "n mod 10 < 10" by simp
    then have "code_unit (digitChar (n mod 10)) = 48 + n mod 10"
      by (rule code_unit_digitChar)
    with False "1.IH" show ?thesis
      by (subst showNat.simps) (simp add: digitsValue_snoc)
  qed
qed

lemma showNat_inj: "showNat n = showNat m \<Longrightarrow> n = m"
  by (metis digitsValue_showNat)

lemma showNat_delim:
  assumes "showNat n @ c # r = showNat m @ c' # r'" "\<not> isDigit c" "\<not> isDigit c'"
  shows "n = m \<and> c # r = c' # r'"
proof -
  have a: "takeWhile isDigit (showNat n @ c # r) = showNat n"
    using assms(2) by (simp add: takeWhile_append2 showNat_digits)
  have b: "takeWhile isDigit (showNat m @ c' # r') = showNat m"
    using assms(3) by (simp add: takeWhile_append2 showNat_digits)
  from a b assms(1) have "showNat n = showNat m" by simp
  with assms(1) show ?thesis by (simp add: showNat_inj)
qed

subsection \<open>Quoted strings\<close>

lemma of_char_hexDigit: "d < 16 \<Longrightarrow> of_char (hexDigit d) = (if d < 10 then 48 + d else 87 + d)"
  by (simp add: hexDigit_def)

lemma hexDigit_inj: "a < 16 \<Longrightarrow> b < 16 \<Longrightarrow> hexDigit a = hexDigit b \<Longrightarrow> a = b"
proof -
  assume a: "a < 16" and b: "b < 16" and e: "hexDigit a = hexDigit b"
  from e have "(of_char (hexDigit a) :: nat) = of_char (hexDigit b)" by simp
  with a b show ?thesis by (simp add: of_char_hexDigit split: if_splits)
qed

lemma hex_pair_inj:
  assumes "n < 32" "m < 32" "hexDigit (n div 16) = hexDigit (m div 16)"
    "hexDigit (n mod 16) = hexDigit (m mod 16)"
  shows "n = (m::nat)"
proof -
  have "n div 16 = m div 16" using assms(1,2,3) by (intro hexDigit_inj) auto
  moreover have "n mod 16 = m mod 16" using assms(4) by (intro hexDigit_inj) auto
  ultimately show ?thesis by (metis div_mult_mod_eq)
qed


lemma code_unit_eqD: "code_unit c = k \<Longrightarrow> code_unit c' = k \<Longrightarrow> c = c'"
proof -
  assume "code_unit c = k" "code_unit c' = k"
  then have "(of_char c :: nat) = of_char c'" by (simp add: code_unit_def)
  then show "c = c'" by simp
qed

lemma code_unit_inj: "code_unit c = code_unit c' \<Longrightarrow> c = c'"
  by (rule code_unit_eqD[OF _ refl])

lemma quoteChar_form:
  "(code_unit c = 8 \<and> quoteChar c = [CHR 0x5C, CHR ''b''])
   \<or> (code_unit c = 9 \<and> quoteChar c = [CHR 0x5C, CHR ''t''])
   \<or> (code_unit c = 10 \<and> quoteChar c = [CHR 0x5C, CHR ''n''])
   \<or> (code_unit c = 12 \<and> quoteChar c = [CHR 0x5C, CHR ''f''])
   \<or> (code_unit c = 13 \<and> quoteChar c = [CHR 0x5C, CHR ''r''])
   \<or> (code_unit c = 34 \<and> quoteChar c = [CHR 0x5C, CHR 0x22])
   \<or> (code_unit c = 92 \<and> quoteChar c = [CHR 0x5C, CHR 0x5C])
   \<or> (code_unit c < 32 \<and> quoteChar c = [CHR 0x5C, CHR ''u'', CHR ''0'', CHR ''0'',
                              hexDigit (code_unit c div 16), hexDigit (code_unit c mod 16)])
   \<or> (code_unit c \<noteq> 34 \<and> code_unit c \<noteq> 92 \<and> quoteChar c = [c])"
proof -
  consider (a) "code_unit c = 8" | (b) "code_unit c = 9" | (c) "code_unit c = 10"
    | (d) "code_unit c = 12" | (e) "code_unit c = 13" | (f) "code_unit c = 34"
    | (g) "code_unit c = 92"
    | (h) "code_unit c \<noteq> 8" "code_unit c \<noteq> 9" "code_unit c \<noteq> 10" "code_unit c \<noteq> 12"
          "code_unit c \<noteq> 13" "code_unit c \<noteq> 34" "code_unit c \<noteq> 92" "code_unit c < 32"
    | (i) "code_unit c \<noteq> 8" "code_unit c \<noteq> 9" "code_unit c \<noteq> 10" "code_unit c \<noteq> 12"
          "code_unit c \<noteq> 13" "code_unit c \<noteq> 34" "code_unit c \<noteq> 92" "\<not> code_unit c < 32"
    by blast
  then show ?thesis
  proof cases
    case a then show ?thesis by (simp add: quoteChar_def)
  next
    case b then show ?thesis by (simp add: quoteChar_def)
  next
    case c then show ?thesis by (simp add: quoteChar_def)
  next
    case d then show ?thesis by (simp add: quoteChar_def)
  next
    case e then show ?thesis by (simp add: quoteChar_def)
  next
    case f then show ?thesis by (simp add: quoteChar_def)
  next
    case g then show ?thesis by (simp add: quoteChar_def)
  next
    case h then show ?thesis by (simp add: quoteChar_def Let_def)
  next
    case i then show ?thesis by (simp add: quoteChar_def Let_def)
  qed
qed

lemma code_unit_lits:
  "code_unit (CHR 0x5C) = 92" "code_unit (CHR 0x22) = 34"
  by (simp_all add: code_unit_def)


lemma quoteChar_prefix_free:
  assumes "quoteChar c @ r = quoteChar c' @ r'"
  shows "c = c' \<and> r = r'"
  using quoteChar_form[of c] quoteChar_form[of c'] assms
  by (elim disjE conjE; simp; (auto simp: code_unit_lits dest: code_unit_eqD hex_pair_inj code_unit_inj)?)


lemma quoteChar_no_quote: "quoteChar c @ r \<noteq> CHR 0x22 # r'"
  using quoteChar_form[of c]
  by (elim disjE conjE; simp; (auto simp: code_unit_lits)?)

lemma quoted_body_delim:
  "concat (map quoteChar s) @ CHR 0x22 # r = concat (map quoteChar s') @ CHR 0x22 # r'
   \<Longrightarrow> s = s' \<and> r = r'"
proof (induction s arbitrary: s')
  case Nil
  then show ?case
    by (cases s') (use quoteChar_no_quote in \<open>auto simp: eq_commute[of "CHR 0x22 # _"]\<close>)
next
  case (Cons c cs)
  show ?case
  proof (cases s')
    case Nil
    with Cons.prems show ?thesis using quoteChar_no_quote by auto
  next
    case (Cons c' cs')
    with Cons.prems have
      "quoteChar c @ (concat (map quoteChar cs) @ CHR 0x22 # r)
       = quoteChar c' @ (concat (map quoteChar cs') @ CHR 0x22 # r')"
      by simp
    then have "c = c'" and
      "concat (map quoteChar cs) @ CHR 0x22 # r = concat (map quoteChar cs') @ CHR 0x22 # r'"
      using quoteChar_prefix_free by blast+
    with Cons.IH Cons show ?thesis by blast
  qed
qed

lemma quoteJSON_delim: "quoteJSON s @ r = quoteJSON s' @ r' \<Longrightarrow> s = s' \<and> r = r'"
  using quoted_body_delim[of s r s' r'] by (simp add: quoteJSON_def)

lemma quoteJSON_inj: "quoteJSON s = quoteJSON s' \<Longrightarrow> s = s'"
  using quoteJSON_delim[of s "[]" s' "[]"] by simp

subsection \<open>The key of a parameter record\<close>

lemma not_digit_comma: "\<not> isDigit (CHR '','')"
  by (simp add: isDigit_def code_unit_def)

lemma getCacheKey_params_inj:
  assumes "getCacheKey (paramsObject p) = getCacheKey (paramsObject q)"
  shows "p = (q::params)"
proof -
  from assms have 1:
    "showNat (q_page p) @ CHR '','' # (quoteJSON ''limit'' @ '':'' @ showNat (q_limit p) @ CHR '','' #
        (quoteJSON ''search'' @ '':'' @ quoteJSON (q_search p) @ '','' @
         quoteJSON ''category'' @ '':'' @ quoteJSON (q_category p) @ '','' @
         quoteJSON ''sortBy'' @ '':'' @ quoteJSON (q_sortBy p) @ '','' @
         quoteJSON ''sortOrder'' @ '':'' @ quoteJSON (q_sortOrder p) @ ''}''))
     = showNat (q_page q) @ CHR '','' # (quoteJSON ''limit'' @ '':'' @ showNat (q_limit q) @ CHR '','' #
        (quoteJSON ''search'' @ '':'' @ quoteJSON (q_search q) @ '','' @
         quoteJSON ''category'' @ '':'' @ quoteJSON (q_category q) @ '','' @
         quoteJSON ''sortBy'' @ '':'' @ quoteJSON (q_sortBy q) @ '','' @
         quoteJSON ''sortOrder'' @ '':'' @ quoteJSON (q_sortOrder q) @ ''}''))"
    by (simp add: getCacheKey_def stringifyObject_def paramsObject_def stringifyProperty_def)
  from showNat_delim[OF 1 not_digit_comma not_digit_comma]
  have pg: "q_page p = q_page q" and 2:
    "showNat (q_limit p) @ CHR '','' #
        (quoteJSON ''search'' @ '':'' @ quoteJSON (q_search p) @ '','' @
         quoteJSON ''category'' @ '':'' @ quoteJSON (q_category p) @ '','' @
         quoteJSON ''sortBy'' @ '':'' @ quoteJSON (q_sortBy p) @ '','' @
         quoteJSON ''sortOrder'' @ '':'' @ quoteJSON (q_sortOrder p) @ ''}'')
     = showNat (q_limit q) @ CHR '','' #
        (quoteJSON ''search'' @ '':'' @ quoteJSON (q_search q) @ '','' @
         quoteJSON ''category'' @ '':'' @ quoteJSON (q_category q) @ '','' @
         quoteJSON ''sortBy'' @ '':'' @ quoteJSON (q_sortBy q) @ '','' @
         quoteJSON ''sortOrder'' @ '':'' @ quoteJSON (q_sortOrder q) @ ''}'')"
    by simp_all
  from showNat_delim[OF 2 not_digit_comma not_digit_comma]
  have lm: "q_limit p = q_limit q" and 3:
    "quoteJSON (q_search p) @ ('','' @
         quoteJSON ''category'' @ '':'' @ quoteJSON (q_category p) @ '','' @
         quoteJSON ''sortBy'' @ '':'' @ quoteJSON (q_sortBy p) @ '','' @
         quoteJSON ''sortOrder'' @ '':'' @ quoteJSON (q_sortOrder p) @ ''}'')
     = quoteJSON (q_search q) @ ('','' @
         quoteJSON ''category'' @ '':'' @ quoteJSON (q_category q) @ '','' @
         quoteJSON ''sortBy'' @ '':'' @ quoteJSON (q_sortBy q) @ '','' @
         quoteJSON ''sortOrder'' @ '':'' @ quoteJSON (q_sortOrder q) @ ''}'')"
    by simp_all
  from quoteJSON_delim[OF 3]
  have se: "q_search p = q_search q" and 4:
    "quoteJSON (q_category p) @ ('','' @
         quoteJSON ''sortBy'' @ '':'' @ quoteJSON (q_sortBy p) @ '','' @
         quoteJSON ''sortOrder'' @ '':'' @ quoteJSON (q_sortOrder p) @ ''}'')
     = quoteJSON (q_category q) @ ('','' @
         quoteJSON ''sortBy'' @ '':'' @ quoteJSON (q_sortBy q) @ '','' @
         quoteJSON ''sortOrder'' @ '':'' @ quoteJSON (q_sortOrder q) @ ''}'')"
    by simp_all
  from quoteJSON_delim[OF 4]
  have ca: "q_category p = q_category q" and 5:
    "quoteJSON (q_sortBy p) @ ('','' @
         quoteJSON ''sortOrder'' @ '':'' @ quoteJSON (q_sortOrder p) @ ''}'')
     = quoteJSON (q_sortBy q) @ ('','' @
         quoteJSON ''sortOrder'' @ '':'' @ quoteJSON (q_sortOrder q) @ ''}'')"
    by simp_all
  from quoteJSON_delim[OF 5]
  have sb: "q_sortBy p = q_sortBy q" and 6:
    "quoteJSON (q_sortOrder p) @ ''}'' = quoteJSON (q_sortOrder q) @ ''}''"
    by simp_all
  from quoteJSON_delim[OF 6] have so: "q_sortOrder p = q_sortOrder q" by simp
  from pg lm se ca sb so show ?thesis by simp
qed

text \<open>
  Claim C5, as amended.  The handler always writes the six validated parameters in the
  same order and writes the search string as received, so two requests get the same key
  exactly when their six validated parameters are equal.
\<close>

theorem cache_key_injective:
  "getCacheKey (paramsObject p) = getCacheKey (paramsObject q) \<longleftrightarrow> p = q"
  using getCacheKey_params_inj[of p q] by blast

text \<open>
  Claim C5 as stated fails: the key is not independent of the order of the properties,
  and it does not identify search strings that normalise to the same query.
\<close>

theorem cache_key_not_canonical:
  "getCacheKey [(''page'', JNumber 1), (''limit'', JNumber 25)]
     \<noteq> getCacheKey [(''limit'', JNumber 25), (''page'', JNumber 1)]
   \<and> normalizeText ''Red'' = normalizeText ''red''
   \<and> getCacheKey (paramsObject (readParams
         \<lparr> rawPage = None, rawLimit = None, r_search = Some ''Red'', r_category = None,
           r_sortBy = None, r_sortOrder = None \<rparr>))
     \<noteq> getCacheKey (paramsObject (readParams
         \<lparr> rawPage = None, rawLimit = None, r_search = Some ''red'', r_category = None,
           r_sortBy = None, r_sortOrder = None \<rparr>))"
  by code_simp

section \<open>Sorting and pagination\<close>

subsection \<open>The sort keeps equal criteria in place\<close>

lemma set_insertBy: "set (insertBy cmp x ys) = insert x (set ys)"
  by (induction ys) auto

lemma set_baseSortBy: "set (baseSortBy cmp ds) = set ds"
  by (induction ds) (simp_all add: baseSortBy_def set_insertBy)

lemma compareMultiple_same_key:
  "fst a = fst b \<Longrightarrow> compareMultiple ord a b = int (fst (snd a)) - int (fst (snd b))"
  by (simp add: compareMultiple_def compareAscending_def)

lemma filter_insertBy:
  assumes "\<forall>y \<in> set ys. fst y = fst x \<longrightarrow> fst (snd x) < fst (snd y)"
  shows "filter (\<lambda>d. fst d = k) (insertBy (compareMultiple ord) x ys)
         = filter (\<lambda>d. fst d = k) (x # ys)"
  using assms
proof (induction ys)
  case Nil
  then show ?case by simp
next
  case (Cons y ys)
  show ?case
  proof (cases "compareMultiple ord x y \<le> 0")
    case True
    then show ?thesis by simp
  next
    case False
    have "fst y \<noteq> fst x"
    proof
      assume e: "fst y = fst x"
      with Cons.prems have "fst (snd x) < fst (snd y)" by simp
      with e have "compareMultiple ord x y \<le> 0" by (simp add: compareMultiple_same_key)
      with False show False by simp
    qed
    moreover from Cons have
      "filter (\<lambda>d. fst d = k) (insertBy (compareMultiple ord) x ys) = filter (\<lambda>d. fst d = k) (x # ys)"
      by simp
    ultimately show ?thesis using False by auto
  qed
qed

lemma decorate_index: "d \<in> set (decorate f i xs) \<Longrightarrow> i \<le> fst (snd d) \<and> fst d = f (snd (snd d))"
  by (induction xs arbitrary: i) fastforce+

lemma map_decorate: "map (\<lambda>d. snd (snd d)) (decorate f i xs) = xs"
  by (induction xs arbitrary: i) simp_all

lemma filter_baseSortBy_decorate:
  "filter (\<lambda>d. fst d = k) (baseSortBy (compareMultiple ord) (decorate f i xs))
   = filter (\<lambda>d. fst d = k) (decorate f i xs)"
proof (induction xs arbitrary: i)
  case Nil
  then show ?case by (simp add: baseSortBy_def)
next
  case (Cons x xs)
  let ?rest = "baseSortBy (compareMultiple ord) (decorate f (Suc i) xs)"
  have "\<forall>y \<in> set ?rest. fst y = fst (f x, i, x) \<longrightarrow> fst (snd (f x, i, x)) < fst (snd y)"
  proof
    fix y assume "y \<in> set ?rest"
    then have "y \<in> set (decorate f (Suc i) xs)" by (simp add: set_baseSortBy)
    then have "Suc i \<le> fst (snd y)" using decorate_index by blast
    then show "fst y = fst (f x, i, x) \<longrightarrow> fst (snd (f x, i, x)) < fst (snd y)" by simp
  qed
  from filter_insertBy[OF this, of k ord] Cons.IH[of "Suc i"]
  show ?case by (simp add: baseSortBy_def)
qed

lemma orderBy_stable:
  "filter (\<lambda>x. f x = k) (orderBy f ord xs) = filter (\<lambda>x. f x = k) xs"
proof -
  let ?ds = "decorate f 0 xs"
  let ?sorted = "baseSortBy (compareMultiple ord) ?ds"
  have "filter (\<lambda>x. f x = k) (map (\<lambda>d. snd (snd d)) ?sorted)
        = map (\<lambda>d. snd (snd d)) (filter (\<lambda>d. f (snd (snd d)) = k) ?sorted)"
    by (simp add: filter_map comp_def)
  also have "filter (\<lambda>d. f (snd (snd d)) = k) ?sorted = filter (\<lambda>d. fst d = k) ?sorted"
    by (rule filter_cong) (use decorate_index[of _ f 0 xs] in \<open>auto simp: set_baseSortBy\<close>)
  also have "\<dots> = filter (\<lambda>d. fst d = k) ?ds" by (rule filter_baseSortBy_decorate)
  also have "\<dots> = filter (\<lambda>d. f (snd (snd d)) = k) ?ds"
    by (rule filter_cong) (use decorate_index[of _ f 0 xs] in auto)
  also have "map (\<lambda>d. snd (snd d)) \<dots> = filter (\<lambda>x. f x = k) (map (\<lambda>d. snd (snd d)) ?ds)"
    by (simp add: filter_map comp_def)
  finally show ?thesis by (simp add: orderBy_def map_decorate)
qed

subsection \<open>Pages\<close>

lemma pageCount_int:
  assumes "0 < l"
  obtains z :: int where "pageCount n l = nat z" "int n \<le> z * int l" "(z - 1) * int l < int n"
proof -
  define z where "z = \<lceil>(of_nat n :: rat) / of_nat l\<rceil>"
  have lpos: "(0::rat) < of_nat l" using assms by simp
  have "(of_nat n :: rat) \<le> of_int z * of_nat l"
    unfolding z_def by (rule ceiling_divide_upper[OF lpos])
  then have "(of_int (int n) :: rat) \<le> of_int (z * int l)" by simp
  then have a: "int n \<le> z * int l" by (simp only: of_int_le_iff)
  have "(of_int z - 1) * of_nat l < (of_nat n :: rat)"
    unfolding z_def by (rule ceiling_divide_lower[OF lpos])
  then have "(of_int ((z - 1) * int l) :: rat) < of_int (int n)" by simp
  then have b: "(z - 1) * int l < int n" by (simp only: of_int_less_iff)
  have "pageCount n l = nat z" by (simp add: pageCount_def z_def)
  with a b that show thesis by blast
qed

lemma pageCount_bounds:
  assumes "0 < l"
  shows "n \<le> pageCount n l * l" "0 < n \<Longrightarrow> (pageCount n l - 1) * l < n" "pageCount 0 l = 0"
proof -
  obtain z where z: "pageCount n l = nat z" "int n \<le> z * int l" "(z - 1) * int l < int n"
    using pageCount_int[OF assms] by blast
  have lpos: "0 < int l" using assms by simp
  have z0: "0 \<le> z"
  proof (rule ccontr)
    assume "\<not> 0 \<le> z"
    then have "z \<le> - 1" by simp
    then have "z * int l \<le> - 1 * int l" using lpos by (intro mult_right_mono) simp_all
    with z(2) lpos show False by simp
  qed
  have "int n \<le> int (nat z * l)" using z(2) z0 by simp
  then show "n \<le> pageCount n l * l" using z(1) by (simp only: of_nat_le_iff)
  show "pageCount 0 l = 0" by (simp add: pageCount_def)
  show "(pageCount n l - 1) * l < n" if "0 < n"
  proof -
    have "1 \<le> z"
    proof (rule ccontr)
      assume "\<not> 1 \<le> z"
      with z0 have "z = 0" by simp
      with z(2) that show False by simp
    qed
    then have "int (nat z - 1) = z - 1" by simp
    then have "int ((nat z - 1) * l) = (z - 1) * int l" by (simp only: of_nat_mult)
    with z(3) have "int ((nat z - 1) * l) < int n" by (simp only:)
    then show ?thesis using z(1) by (simp only: of_nat_less_iff)
  qed
qed

lemma page_sizes_sum:
  "(\<Sum>pg = 1..k. length (take l (drop ((pg - 1) * l) xs))) = min (length xs) (k * l)"
proof (induction k)
  case 0
  then show ?case by simp
next
  case (Suc k)
  have "min (length xs) (k * l) + min (length xs - k * l) l = min (length xs) (l + k * l)"
    by arith
  with Suc show ?case by simp
qed

subsection \<open>Stability of the sort stage\<close>

lemma orderBy_stable_inj:
  assumes "inj g"
  shows "filter (\<lambda>x. g (f x) = k) (orderBy f ord xs) = filter (\<lambda>x. g (f x) = k) xs"
proof (cases "k \<in> range g")
  case True
  then obtain k' where "k = g k'" by blast
  with assms have "\<And>x. (g (f x) = k) = (f x = k')" by (auto dest: injD)
  then show ?thesis by (simp add: orderBy_stable)
next
  case False
  then have "\<And>x. (g (f x) = k) = False" by auto
  then show ?thesis by simp
qed

lemma sortProducts_stable:
  "filter (\<lambda>x. sortKey sortBy x = k) (sortProducts sortBy ord fs)
   = filter (\<lambda>x. sortKey sortBy x = k) fs"
proof -
  have l: "inj (Inl :: string \<Rightarrow> string + rat)" and r: "inj (Inr :: rat \<Rightarrow> string + rat)"
    by (simp_all add: inj_def)
  consider "sortBy = ''name''" | "sortBy = ''price''" | "sortBy = ''category''"
    | "sortBy = ''brand''" | "sortBy = ''stock''" | "sortBy = ''rating''"
    | "sortBy = ''createdAt''" | "sortBy \<notin> set ALLOWED_SORT_FIELDS"
    by (auto simp: ALLOWED_SORT_FIELDS_def)
  then show ?thesis
  proof cases
    case 1 then show ?thesis
      using orderBy_stable_inj[OF l, of name k ord fs] by (simp add: sortProducts_def sortKey_def)
  next
    case 2 then show ?thesis
      using orderBy_stable_inj[OF r, of price k ord fs] by (simp add: sortProducts_def sortKey_def)
  next
    case 3 then show ?thesis
      using orderBy_stable_inj[OF l, of category k ord fs] by (simp add: sortProducts_def sortKey_def)
  next
    case 4 then show ?thesis
      using orderBy_stable_inj[OF l, of brand k ord fs] by (simp add: sortProducts_def sortKey_def)
  next
    case 5 then show ?thesis
      using orderBy_stable_inj[OF r, of stock k ord fs] by (simp add: sortProducts_def sortKey_def)
  next
    case 6 then show ?thesis
      using orderBy_stable_inj[OF r, of rating k ord fs] by (simp add: sortProducts_def sortKey_def)
  next
    case 7 then show ?thesis
      using orderBy_stable_inj[OF l, of createdAt k ord fs] by (simp add: sortProducts_def sortKey_def)
  next
    case 8 then show ?thesis
      by (simp add: sortProducts_def ALLOWED_SORT_FIELDS_def)
  qed
qed

text \<open>
  Claim C7.  For every candidate list, sort field and direction, the products whose sort
  key has a given value appear in the sorted list in the order in which they appear in
  the candidate list.  With \<open>sortBy = price\<close> the key is the price, so products of
  equal price keep their relative order.
\<close>

theorem sort_stable:
  "filter (\<lambda>x. sortKey (q_sortBy p) x = k) (sortStage p fs)
   = filter (\<lambda>x. sortKey (q_sortBy p) x = k) fs"
  by (simp add: sortStage_def sortProducts_stable)

section \<open>Contents of the indexes\<close>

lemma map_of_addToIndex:
  "map_of (addToIndex ix k i) k' = (if k' = k then Some (set_add i (postings ix k)) else map_of ix k')"
  by (auto simp: addToIndex_def Let_def postings_def update_conv' split: option.splits)

lemma postings_addToIndex:
  "postings (addToIndex ix k i) k' = (if k' = k then set_add i (postings ix k) else postings ix k')"
  by (simp add: postings_def map_of_addToIndex)

lemma set_set_add [simp]: "set (set_add x xs) = insert x (set xs)"
  by (auto simp: set_add_def)

lemma distinct_set_add: "distinct xs \<Longrightarrow> distinct (set_add x xs)"
  by (simp add: set_add_def)

lemma postings_fold_add:
  "set (postings (foldl (\<lambda>ix w. addToIndex ix w i) ix ws) k)
   = set (postings ix k) \<union> (if k \<in> set ws then {i} else {})"
  by (induction ws arbitrary: ix) (auto simp: postings_addToIndex)

lemma indexProduct_fields:
  "productById (indexProduct s p) = AList.update (pid p) (withSearchableText p) (productById s)"
  "categoryIndex (indexProduct s p) = addToIndex (categoryIndex s) (category p) (pid p)"
  "wordIndex (indexProduct s p) = foldl (\<lambda>ix w. addToIndex ix w (pid p)) (wordIndex s) (getWords (textOf p))"
  "trigramIndex (indexProduct s p) = foldl (\<lambda>ix w. addToIndex ix w (pid p)) (trigramIndex s) (getTrigrams (textOf p))"
  by (simp_all add: indexProduct_def Let_def withSearchableText_def)

lemma trigram_postings_fold:
  "set (postings (trigramIndex (foldl indexProduct s ps)) k)
   = set (postings (trigramIndex s) k) \<union> {pid p | p. p \<in> set ps \<and> k \<in> set (getTrigrams (textOf p))}"
  by (induction ps arbitrary: s) (auto simp: indexProduct_fields postings_fold_add)

lemma word_postings_fold:
  "set (postings (wordIndex (foldl indexProduct s ps)) k)
   = set (postings (wordIndex s) k) \<union> {pid p | p. p \<in> set ps \<and> k \<in> set (getWords (textOf p))}"
  by (induction ps arbitrary: s) (auto simp: indexProduct_fields postings_fold_add)

lemma category_postings_fold:
  "set (postings (categoryIndex (foldl indexProduct s ps)) k)
   = set (postings (categoryIndex s) k) \<union> {pid p | p. p \<in> set ps \<and> k = category p}"
  by (induction ps arbitrary: s) (auto simp: indexProduct_fields postings_addToIndex)

lemma byId_fold:
  "map_of (productById (foldl indexProduct s ps))
   = map_of (productById s) ++ map_of (rev (map (\<lambda>p. (pid p, withSearchableText p)) ps))"
proof (induction ps arbitrary: s)
  case Nil
  then show ?case by simp
next
  case (Cons a ps)
  have "map_of (productById (indexProduct s a))
          = (map_of (productById s))(pid a \<mapsto> withSearchableText a)"
    by (simp add: indexProduct_fields update_conv')
  then have "map_of (productById (foldl indexProduct s (a # ps)))
          = (map_of (productById s))(pid a \<mapsto> withSearchableText a)
            ++ map_of (rev (map (\<lambda>p. (pid p, withSearchableText p)) ps))"
    using Cons.IH[of "indexProduct s a"] by (simp only: foldl_Cons)
  also have "\<dots> = map_of (productById s)
            ++ map_of (rev (map (\<lambda>p. (pid p, withSearchableText p)) (a # ps)))"
    by (rule ext) (simp add: map_of_append map_add_def split: option.splits)
  finally show ?case .
qed

lemma byId_build:
  "map_of (productById (buildIndexes ps s))
   = map_of (rev (map (\<lambda>p. (pid p, withSearchableText p)) ps))"
  by (simp add: buildIndexes_def Let_def byId_fold)

lemma byId_build_range:
  assumes "map_of (productById (buildIndexes ps s)) i = Some q"
  shows "\<exists>p \<in> set ps. pid p = i \<and> q = withSearchableText p"
  using map_of_SomeD[OF assms[unfolded byId_build]] by auto

lemma byId_build_dom:
  assumes "p \<in> set ps"
  shows "\<exists>q. map_of (productById (buildIndexes ps s)) (pid p) = Some q"
proof -
  have "pid p \<in> fst ` set (rev (map (\<lambda>p. (pid p, withSearchableText p)) ps))"
    using assms by force
  then show ?thesis
    unfolding byId_build by (metis map_of_eq_None_iff not_Some_eq)
qed

lemma byId_build_distinct:
  assumes "distinct (map pid ps)" "p \<in> set ps"
  shows "map_of (productById (buildIndexes ps s)) (pid p) = Some (withSearchableText p)"
proof -
  let ?l = "rev (map (\<lambda>p. (pid p, withSearchableText p)) ps)"
  have "distinct (map fst ?l)" using assms(1) by (simp add: rev_map[symmetric] comp_def)
  moreover have "(pid p, withSearchableText p) \<in> set ?l" using assms(2) by force
  ultimately show ?thesis unfolding byId_build by (simp only: map_of_eq_Some_iff)
qed

lemma postings_Nil: "postings [] k = []"
  by (simp add: postings_def)

lemma postings_build:
  "set (postings (trigramIndex (buildIndexes ps s)) k)
     = {pid p | p. p \<in> set ps \<and> k \<in> set (getTrigrams (textOf p))}"
  "set (postings (wordIndex (buildIndexes ps s)) k)
     = {pid p | p. p \<in> set ps \<and> k \<in> set (getWords (textOf p))}"
  "set (postings (categoryIndex (buildIndexes ps s)) k)
     = {pid p | p. p \<in> set ps \<and> k = category p}"
  by (simp_all add: buildIndexes_def Let_def trigram_postings_fold word_postings_fold
        category_postings_fold postings_Nil)


lemma distinct_addToIndex:
  "distinct (map fst ix) \<Longrightarrow> distinct (map fst (addToIndex ix k i))"
  by (simp add: addToIndex_def Let_def distinct_update split: option.splits)

lemma distinct_fold_add:
  "distinct (map fst ix) \<Longrightarrow> distinct (map fst (foldl (\<lambda>ix w. addToIndex ix w i) ix ws))"
  by (induction ws arbitrary: ix) (simp_all add: distinct_addToIndex)

lemma distinct_keys_fold:
  "distinct (map fst (wordIndex s)) \<and> distinct (map fst (trigramIndex s))
     \<and> distinct (map fst (categoryIndex s))
   \<Longrightarrow> distinct (map fst (wordIndex (foldl indexProduct s ps)))
       \<and> distinct (map fst (trigramIndex (foldl indexProduct s ps)))
       \<and> distinct (map fst (categoryIndex (foldl indexProduct s ps)))"
  by (induction ps arbitrary: s)
     (simp_all add: indexProduct_fields distinct_fold_add distinct_addToIndex)

lemma distinct_keys_build:
  "distinct (map fst (wordIndex (buildIndexes ps s)))"
  "distinct (map fst (trigramIndex (buildIndexes ps s)))"
  "distinct (map fst (categoryIndex (buildIndexes ps s)))"
  using distinct_keys_fold[of "s\<lparr>productById := [], trigramIndex := [], wordIndex := [], categoryIndex := []\<rparr>" ps]
  by (simp_all add: buildIndexes_def Let_def)

lemma entry_postings:
  "distinct (map fst ix) \<Longrightarrow> (k, ids) \<in> set ix \<Longrightarrow> postings ix k = ids"
  by (simp add: postings_def)

lemma withSearchableText_fields [simp]:
  "pid (withSearchableText p) = pid p"
  "category (withSearchableText p) = category p"
  "searchableText (withSearchableText p) = Some (textOf p)"
  by (simp_all add: withSearchableText_def)

subsection \<open>Consistency of the four indexes\<close>

text \<open>
  Claim C8.  After a rebuild from products with pairwise different ids (the data model's
  unique id), every product id that occurs in a posting set of the word, trigram or
  category index is a key of the primary index, and the primary index maps it to the
  stored product from whose text or category the posting was derived.
\<close>

theorem index_consistent:
  assumes "distinct (map pid ps)"
    and "(k, ids) \<in> set (wordIndex (buildIndexes ps s))
         \<or> (k, ids) \<in> set (trigramIndex (buildIndexes ps s))
         \<or> (k, ids) \<in> set (categoryIndex (buildIndexes ps s))"
    and "i \<in> set ids"
  shows "\<exists>p. map_of (productById (buildIndexes ps s)) i = Some p
            \<and> p \<in> set (products (buildIndexes ps s)) \<and> pid p = i
            \<and> searchableText p = Some (textOf p)
            \<and> ((k, ids) \<in> set (wordIndex (buildIndexes ps s)) \<longrightarrow> k \<in> set (getWords (textOf p)))
            \<and> ((k, ids) \<in> set (trigramIndex (buildIndexes ps s)) \<longrightarrow> k \<in> set (getTrigrams (textOf p)))
            \<and> ((k, ids) \<in> set (categoryIndex (buildIndexes ps s)) \<longrightarrow> category p = k)"
proof -
  let ?s = "buildIndexes ps s"
  have uniq: "\<And>p q. p \<in> set ps \<Longrightarrow> q \<in> set ps \<Longrightarrow> pid p = pid q \<Longrightarrow> p = q"
    using assms(1) by (meson distinct_map inj_onD)
  have w: "(k, ids) \<in> set (wordIndex ?s) \<Longrightarrow> \<exists>p \<in> set ps. pid p = i \<and> k \<in> set (getWords (textOf p))"
    using entry_postings[OF distinct_keys_build(1)] postings_build(2)[of ps s k] assms(3) by auto
  have t: "(k, ids) \<in> set (trigramIndex ?s) \<Longrightarrow> \<exists>p \<in> set ps. pid p = i \<and> k \<in> set (getTrigrams (textOf p))"
    using entry_postings[OF distinct_keys_build(2)] postings_build(1)[of ps s k] assms(3) by auto
  have c: "(k, ids) \<in> set (categoryIndex ?s) \<Longrightarrow> \<exists>p \<in> set ps. pid p = i \<and> category p = k"
    using entry_postings[OF distinct_keys_build(3)] postings_build(3)[of ps s k] assms(3) by auto
  from assms(2) w t c obtain p0 where p0: "p0 \<in> set ps" "pid p0 = i" by blast
  let ?p = "withSearchableText p0"
  have "map_of (productById ?s) i = Some ?p"
    using byId_build_distinct[OF assms(1) p0(1)] p0(2) by simp
  moreover have "?p \<in> set (products ?s)" using p0(1) by (simp add: buildIndexes_products)
  moreover have "(k, ids) \<in> set (wordIndex ?s) \<longrightarrow> k \<in> set (getWords (textOf ?p))"
    using w uniq p0 by auto
  moreover have "(k, ids) \<in> set (trigramIndex ?s) \<longrightarrow> k \<in> set (getTrigrams (textOf ?p))"
    using t uniq p0 by auto
  moreover have "(k, ids) \<in> set (categoryIndex ?s) \<longrightarrow> category ?p = k"
    using c uniq p0 by auto
  ultimately show ?thesis using p0(2) by auto
qed

theorem index_consistent_witness:
  "distinct (map pid [redShoe, redHat])
   \<and> (''hat'', [''3'']) \<in> set (wordIndex (buildIndexes [redShoe, redHat] emptyCatalog))
   \<and> ''3'' \<in> set [''3'']
   \<and> (\<exists>p. map_of (productById (buildIndexes [redShoe, redHat] emptyCatalog)) ''3'' = Some p
            \<and> p \<in> set (products (buildIndexes [redShoe, redHat] emptyCatalog)) \<and> pid p = ''3''
            \<and> ''hat'' \<in> set (getWords (textOf p)))"
proof -
  have h1: "distinct (map pid [redShoe, redHat])" by code_simp
  have h2: "(''hat'', [''3'']) \<in> set (wordIndex (buildIndexes [redShoe, redHat] emptyCatalog))"
    by code_simp
  have h3: "''3'' \<in> set [''3'']" by simp
  from index_consistent[OF h1 disjI1[OF h2] h3] h1 h2 h3 show ?thesis by blast
qed

section \<open>The response cache\<close>

subsection \<open>Reading with a coherent cache\<close>

lemma candidatesFor_cache [simp]:
  "candidatesFor (s\<lparr>responseCache := c\<rparr>) q = candidatesFor s q"
  by (simp add: candidatesFor_def Let_def)

lemma materialize_cache [simp]:
  "materialize (s\<lparr>responseCache := c\<rparr>) ids = materialize s ids"
  by (simp add: materialize_def)

lemma filterProducts_cache [simp]:
  "filterProducts (s\<lparr>responseCache := c\<rparr>) a b = filterProducts s a b"
  by (simp add: filterProducts_def Let_def cong: option.case_cong sum.case_cong if_cong)

lemma computeResponse_cache [simp]:
  "computeResponse (s\<lparr>responseCache := c\<rparr>) p = computeResponse s p"
  by (simp add: computeResponse_def)

lemma cacheCoherent_empty: "responseCache s = [] \<Longrightarrow> cacheCoherent s"
  by (simp add: cacheCoherent_def)

lemma cacheCoherent_build: "cacheCoherent (buildIndexes ps s)"
  by (simp add: cacheCoherent_empty buildIndexes_cache)

lemma cacheCoherent_fresh: "cacheCoherent s \<Longrightarrow> cacheCoherent (ensureProductsFresh e s)"
  by (simp add: ensureProductsFresh_def generateProducts_def cacheCoherent_build)

lemma cacheCoherent_delete:
  "cacheCoherent s \<Longrightarrow> cacheCoherent (s\<lparr>responseCache := AList.delete k (responseCache s)\<rparr>)"
  by (simp add: cacheCoherent_def delete_conv')

lemma cacheCoherent_store:
  assumes "cacheCoherent s" "computeResponse s p = Inr (pl, hs)"
  shows "cacheCoherent (setCachedResponse now (getCacheKey (paramsObject p)) pl hs s)"
  using assms by (auto simp: cacheCoherent_def setCachedResponse_def update_conv')

lemma getCachedResponse_cases:
  obtains (hit) c where "getCachedResponse now k s = (Some c, s)" "map_of (responseCache s) k = Some c"
  | (miss) c' where "getCachedResponse now k s = (None, s\<lparr>responseCache := c'\<rparr>)"
      "c' = responseCache s \<or> c' = AList.delete k (responseCache s)"
proof (cases "map_of (responseCache s) k")
  case None
  then have "getCachedResponse now k s = (None, s\<lparr>responseCache := responseCache s\<rparr>)"
    by (simp add: getCachedResponse_def)
  then show ?thesis using miss by blast
next
  case (Some c)
  show ?thesis
  proof (cases "expiresAt c < now")
    case True
    with Some have "getCachedResponse now k s
        = (None, s\<lparr>responseCache := AList.delete k (responseCache s)\<rparr>)"
      by (simp add: getCachedResponse_def)
    then show ?thesis using miss by blast
  next
    case False
    with Some have "getCachedResponse now k s = (Some c, s)"
      by (simp add: getCachedResponse_def)
    with Some show ?thesis using hit by blast
  qed
qed

lemma cache_hit_fresh:
  assumes "cacheCoherent s" "map_of (responseCache s) (getCacheKey (paramsObject p)) = Some c"
  shows "computeResponse s p = Inr (ce_payload c, ce_headers c)"
  using assms getCacheKey_params_inj unfolding cacheCoherent_def by blast

lemma listProducts_fresh:
  assumes "cacheCoherent s"
  shows "fst (listProducts e req s) = freshResponse e req s"
proof -
  let ?s = "ensureProductsFresh e s" and ?p = "readParams req"
  have co: "cacheCoherent ?s" using assms by (rule cacheCoherent_fresh)
  show ?thesis
  proof (cases rule: getCachedResponse_cases[of "clockLookup e" "getCacheKey (paramsObject ?p)" ?s])
    case (hit c)
    with cache_hit_fresh[OF co hit(2)] show ?thesis
      by (simp add: listProducts_def freshResponse_def Let_def)
  next
    case (miss c')
    then show ?thesis
      by (simp add: listProducts_def freshResponse_def Let_def split: sum.splits prod.splits)
  qed
qed

lemma listProducts_state:
  "\<exists>c. snd (listProducts e req s) = (ensureProductsFresh e s)\<lparr>responseCache := c\<rparr>"
proof -
  let ?s = "ensureProductsFresh e s" and ?p = "readParams req"
  show ?thesis
  proof (cases rule: getCachedResponse_cases[of "clockLookup e" "getCacheKey (paramsObject ?p)" ?s])
    case (hit c)
    then have "snd (listProducts e req s) = ?s\<lparr>responseCache := responseCache ?s\<rparr>"
      by (simp add: listProducts_def Let_def)
    then show ?thesis by blast
  next
    case (miss c')
    then show ?thesis
      by (auto simp: listProducts_def Let_def setCachedResponse_def split: sum.splits prod.splits)
  qed
qed

lemma listProducts_coherent:
  assumes "cacheCoherent s"
  shows "cacheCoherent (snd (listProducts e req s))"
proof -
  let ?s = "ensureProductsFresh e s" and ?p = "readParams req"
  have co: "cacheCoherent ?s" using assms by (rule cacheCoherent_fresh)
  show ?thesis
  proof (cases rule: getCachedResponse_cases[of "clockLookup e" "getCacheKey (paramsObject ?p)" ?s])
    case (hit c)
    with co show ?thesis by (simp add: listProducts_def Let_def)
  next
    case (miss c')
    let ?s1 = "?s\<lparr>responseCache := c'\<rparr>"
    have co1: "cacheCoherent ?s1"
      using miss(2) co cacheCoherent_delete[OF co] by auto
    show ?thesis
    proof (cases "computeResponse ?s ?p")
      case (Inl a)
      with miss co1 show ?thesis by (simp add: listProducts_def Let_def)
    next
      case (Inr b)
      obtain pl hs where b: "b = (pl, hs)" by (cases b)
      have "computeResponse ?s1 ?p = Inr (pl, hs)" using Inr b by simp
      from cacheCoherent_store[OF co1 this, of "clockStore e"] miss Inr b
      show ?thesis by (simp add: listProducts_def Let_def)
    qed
  qed
qed

subsection \<open>Indexed states\<close>

lemma cache_reset_id: "responseCache s = [] \<Longrightarrow> s\<lparr>responseCache := []\<rparr> = (s::catalog)"
  by (cases s) simp

lemma indexed_build: "indexed (buildIndexes ps s)"
  unfolding indexed_def
  using buildIndexes_again[of ps s "buildIndexes ps s"]
  by (simp add: cache_reset_id buildIndexes_cache)

lemma build_fixed: "buildIndexes (products (buildIndexes ps s)) (buildIndexes ps s) = buildIndexes ps s"
  by (rule buildIndexes_again)

lemma indexed_cache [simp]: "indexed (s\<lparr>responseCache := c\<rparr>) = indexed s"
  using buildIndexes_any[of "products s" "s\<lparr>responseCache := c\<rparr>" s]
  by (simp add: indexed_def)

lemma indexed_fresh: "indexed s \<Longrightarrow> indexed (ensureProductsFresh e s)"
  by (simp add: ensureProductsFresh_def generateProducts_def indexed_build)

lemma listProducts_indexed: "indexed s \<Longrightarrow> indexed (snd (listProducts e req s))"
  using listProducts_state[of e req s] indexed_fresh[of s e] by auto

subsection \<open>What a mutation leaves behind\<close>

lemma requireAdmin_refuses: "requireAdmin e = Some r \<Longrightarrow> \<not> succeeded r"
  by (auto simp: requireAdmin_def authenticate_def Let_def
           split: sum.splits option.splits if_splits verified.splits)

lemma create_cases:
  "snd (createProduct e b s) = s \<and> \<not> succeeded (fst (createProduct e b s))
   \<or> snd (createProduct e b s) = ensureProductsFresh e s \<and> \<not> succeeded (fst (createProduct e b s))
   \<or> (\<exists>ps s'. snd (createProduct e b s) = buildIndexes ps s')"
  by (auto simp: createProduct_def Let_def dest: requireAdmin_refuses split: option.splits)

lemma update_cases:
  "snd (updateProduct e i b s) = s \<and> \<not> succeeded (fst (updateProduct e i b s))
   \<or> snd (updateProduct e i b s) = ensureProductsFresh e s \<and> \<not> succeeded (fst (updateProduct e i b s))
   \<or> (\<exists>ps s'. snd (updateProduct e i b s) = buildIndexes ps s')"
  by (auto simp: updateProduct_def Let_def dest: requireAdmin_refuses split: option.splits)

lemma delete_cases:
  "snd (deleteProduct e i s) = s \<and> \<not> succeeded (fst (deleteProduct e i s))
   \<or> snd (deleteProduct e i s) = ensureProductsFresh e s \<and> \<not> succeeded (fst (deleteProduct e i s))
   \<or> (\<exists>ps s'. snd (deleteProduct e i s) = buildIndexes ps s')"
  by (auto simp: deleteProduct_def Let_def dest: requireAdmin_refuses split: option.splits)

lemma mutate_cases:
  "snd (mutate e m s) = s \<and> \<not> succeeded (fst (mutate e m s))
   \<or> snd (mutate e m s) = ensureProductsFresh e s \<and> \<not> succeeded (fst (mutate e m s))
   \<or> (\<exists>ps s'. snd (mutate e m s) = buildIndexes ps s')"
  by (cases m) (simp_all add: create_cases update_cases delete_cases)

lemma mutate_success:
  assumes "succeeded (fst (mutate e m s))"
  shows "\<exists>ps s'. snd (mutate e m s) = buildIndexes ps s'"
  using mutate_cases[of e m s] assms by blast

lemma mutate_coherent: "cacheCoherent s \<Longrightarrow> cacheCoherent (snd (mutate e m s))"
  using mutate_cases[of e m s] cacheCoherent_fresh[of s e] cacheCoherent_build by auto

lemma mutate_indexed: "indexed s \<Longrightarrow> indexed (snd (mutate e m s))"
  using mutate_cases[of e m s] indexed_fresh[of s e] indexed_build by auto

lemma perform_coherent: "cacheCoherent s \<Longrightarrow> cacheCoherent (snd (perform e op s))"
  by (cases op) (simp_all add: listProducts_coherent mutate_coherent)

lemma perform_indexed: "indexed s \<Longrightarrow> indexed (snd (perform e op s))"
  by (cases op) (simp_all add: listProducts_indexed mutate_indexed)

lemma afterRequests_coherent: "cacheCoherent s \<Longrightarrow> cacheCoherent (afterRequests ops s)"
  by (induction ops arbitrary: s) (simp_all add: perform_coherent)

lemma afterRequests_indexed: "indexed s \<Longrightarrow> indexed (afterRequests ops s)"
  by (induction ops arbitrary: s) (simp_all add: perform_indexed)

subsection \<open>No stale read\<close>

text \<open>
  Claim C4.  A create, update or delete request that succeeds ends with a rebuild: the
  state it leaves is the rebuild of its own products, and its response cache is empty.
  However many requests follow, a later \<^verbatim>\<open>GET /\<close> answers with what the state at that
  moment computes for its parameters, never with a payload stored before the mutation.
\<close>

theorem no_stale_reads:
  assumes "mutate e m s = (r, s1)" and "succeeded r"
  shows "buildIndexes (products s1) s1 = s1 \<and> responseCache s1 = []
         \<and> fst (listProducts e' req (afterRequests ops s1))
             = freshResponse e' req (afterRequests ops s1)"
proof -
  from assms mutate_success[of e m s] obtain ps s' where s1: "s1 = buildIndexes ps s'" by auto
  then have "cacheCoherent s1" by (simp add: cacheCoherent_build)
  then have "cacheCoherent (afterRequests ops s1)" by (rule afterRequests_coherent)
  then have "fst (listProducts e' req (afterRequests ops s1))
             = freshResponse e' req (afterRequests ops s1)"
    by (rule listProducts_fresh)
  with s1 show ?thesis by (simp add: build_fixed buildIndexes_cache)
qed

theorem no_stale_reads_witness:
  "mutate demoEnv (Delete ''1'') (snd (listProducts demoEnv plainRequest emptyCatalog))
     = (ProductDeleted,
        snd (mutate demoEnv (Delete ''1'') (snd (listProducts demoEnv plainRequest emptyCatalog))))
   \<and> succeeded ProductDeleted
   \<and> responseCache (snd (listProducts demoEnv plainRequest emptyCatalog)) \<noteq> []
   \<and> responseCache
        (snd (mutate demoEnv (Delete ''1'') (snd (listProducts demoEnv plainRequest emptyCatalog))))
      = []
   \<and> fst (listProducts demoEnv plainRequest
        (afterRequests [(demoEnv, Read plainRequest)]
          (snd (mutate demoEnv (Delete ''1'') (snd (listProducts demoEnv plainRequest emptyCatalog))))))
      = freshResponse demoEnv plainRequest
          (afterRequests [(demoEnv, Read plainRequest)]
            (snd (mutate demoEnv (Delete ''1'') (snd (listProducts demoEnv plainRequest emptyCatalog)))))"
proof -
  let ?s = "snd (listProducts demoEnv plainRequest emptyCatalog)"
  have f: "fst (mutate demoEnv (Delete ''1'') ?s) = ProductDeleted" by code_simp
  then have h1: "mutate demoEnv (Delete ''1'') ?s = (ProductDeleted, snd (mutate demoEnv (Delete ''1'') ?s))"
    by (metis prod.collapse)
  have h2: "succeeded ProductDeleted" by simp
  have h3: "responseCache ?s \<noteq> []" by code_simp
  from no_stale_reads[OF h1 h2, of demoEnv plainRequest "[(demoEnv, Read plainRequest)]"] h1 h2 h3
  show ?thesis by blast
qed

section \<open>The list handler on an indexed state\<close>

subsection \<open>The verification filter never throws\<close>

lemma indexed_byId:
  assumes "indexed s" "map_of (productById s) i = Some q"
  shows "\<exists>p \<in> set (products s). pid p = i \<and> q = withSearchableText p"
proof -
  from assms(1) have "productById (buildIndexes (products s) s) = productById s"
    by (simp add: indexed_def)
  with assms(2) byId_build_range[of "products s" s i q] show ?thesis by simp
qed

lemma set_materialize:
  "set (materialize s ids) = {q. \<exists>i \<in> set ids. map_of (productById s) i = Some q}"
  by (force simp: materialize_def map_filter_def)

lemma materialize_searchable:
  assumes "indexed s" "q \<in> set (materialize s ids)"
  shows "searchableText q = Some (textOf q)"
proof -
  from assms(2) obtain i where "map_of (productById s) i = Some q"
    by (auto simp: set_materialize)
  from indexed_byId[OF assms(1) this] show ?thesis by auto
qed

lemma verify_total:
  assumes "indexed s"
  shows "verify nq (materialize s ids)
         = Inr (filter (\<lambda>p. js_includes (textOf p) nq) (materialize s ids))"
proof -
  have "\<forall>q \<in> set (materialize s ids). searchableText q = Some (textOf q)"
    using materialize_searchable[OF assms] by blast
  then show ?thesis
    by (auto simp: verify_def intro!: filter_cong)
qed

lemma filterProducts_total:
  assumes "indexed s"
  shows "\<exists>fs. filterProducts s a b = Inr fs"
  by (auto simp: filterProducts_def Let_def verify_total[OF assms] split: option.splits)

subsection \<open>Validated parameters\<close>

lemma sortStage_page [simp]: "sortStage (p\<lparr>q_page := pg\<rparr>) fs = sortStage p fs"
  by (simp add: sortStage_def)

lemma readParams_page:
  "1 \<le> pg \<Longrightarrow> readParams (req\<lparr>rawPage := Some (of_nat pg)\<rparr>) = (readParams req)\<lparr>q_page := pg\<rparr>"
  by (simp add: readParams_def isInteger_def)

lemma readParams_valid:
  "1 \<le> q_page (readParams req)" "1 \<le> q_limit (readParams req)"
  "q_limit (readParams req) \<le> MAX_LIMIT"
proof -
  show "1 \<le> q_page (readParams req)"
  proof (cases "rawPage req")
    case None
    then show ?thesis by (simp add: readParams_def)
  next
    case (Some r)
    show ?thesis
    proof (cases "isInteger r \<and> r > 0")
      case True
      then obtain n where n: "r = of_int n" by (auto simp: isInteger_def)
      with True have "0 < n" by simp
      with n have "0 < \<lfloor>r\<rfloor>" by simp
      then have "Suc 0 \<le> nat \<lfloor>r\<rfloor>" by (simp only: Suc_le_eq zero_less_nat_eq)
      with Some True show ?thesis by (simp add: readParams_def)
    next
      case False
      with Some show ?thesis by (auto simp: readParams_def)
    qed
  qed
  have fl: "Suc 0 \<le> nat \<lfloor>min (max r 1) 100\<rfloor>" "nat \<lfloor>min (max r 1) 100\<rfloor> \<le> 100" for r :: rat
  proof -
    have a: "1 \<le> \<lfloor>min (max r 1) 100\<rfloor>" by (simp add: le_floor_iff)
    have b: "\<lfloor>min (max r 1) 100\<rfloor> \<le> 100" by (simp add: floor_le_iff min_def)
    from a show "Suc 0 \<le> nat \<lfloor>min (max r 1) 100\<rfloor>" by (simp only: Suc_le_eq zero_less_nat_eq)
    from b show "nat \<lfloor>min (max r 1) 100\<rfloor> \<le> 100" by (simp only: nat_le_iff)
  qed
  show "1 \<le> q_limit (readParams req)"
    by (cases "rawLimit req") (simp_all add: readParams_def DEFAULT_LIMIT_def MAX_LIMIT_def fl)
  show "q_limit (readParams req) \<le> MAX_LIMIT"
    by (cases "rawLimit req") (simp_all add: readParams_def DEFAULT_LIMIT_def MAX_LIMIT_def fl)
qed


subsection \<open>Pages of a response\<close>

lemma paginate_eq: "paginate p xs = take (q_limit p) (drop ((q_page p - 1) * q_limit p) xs)"
  by (simp add: paginate_def slice_def Let_def)

lemma page_lengths_sum:
  assumes "1 \<le> q_limit p"
  shows "(\<Sum>pg = 1..pageCount (length xs) (q_limit p).
            length (resp_products (buildPayload (p\<lparr>q_page := pg\<rparr>) xs))) = length (xs :: product list)"
proof -
  have "length xs \<le> pageCount (length xs) (q_limit p) * q_limit p"
    using pageCount_bounds(1)[of "q_limit p" "length xs"] assms by simp
  then show ?thesis
    using page_sizes_sum[of "q_limit p" xs "pageCount (length xs) (q_limit p)"]
    by (simp add: buildPayload_def paginate_eq Let_def)
qed

lemma page_beyond:
  assumes "1 \<le> q_limit p" "pageCount (length xs) (q_limit p) < q_page p"
  shows "resp_products (buildPayload p xs) = []"
proof -
  have "length xs \<le> pageCount (length xs) (q_limit p) * q_limit p"
    using pageCount_bounds(1)[of "q_limit p" "length xs"] assms by simp
  also have "\<dots> \<le> (q_page p - 1) * q_limit p" using assms(2) by (intro mult_le_mono1) simp
  finally show ?thesis by (simp add: buildPayload_def paginate_eq Let_def)
qed

lemma freshResponse_indexed:
  assumes "indexed s"
  shows "\<exists>fs. filterProducts (ensureProductsFresh e s) (q_search (readParams req))
                 (q_category (readParams req)) = Inr fs
              \<and> freshResponse e req s
                  = ProductList (buildPayload (readParams req) (sortStage (readParams req) fs))
                      [(''X-Total-Count'', showNat (length (sortStage (readParams req) fs)))]"
proof -
  obtain fs where "filterProducts (ensureProductsFresh e s) (q_search (readParams req))
                 (q_category (readParams req)) = Inr fs"
    using filterProducts_total[OF indexed_fresh[OF assms]] by blast
  then show ?thesis by (simp add: freshResponse_def computeResponse_def Let_def)
qed

text \<open>
  Claim C6.  In an indexed state with a coherent cache, \<^verbatim>\<open>GET /\<close> answers with status
  200; with \<open>xs\<close> the filtered and sorted list, \<open>l\<close> the validated limit and \<open>tp\<close> the
  number of pages, the products of the response are the public projections of
  \<open>xs[(page-1)*l ..< (page-1)*l + l]\<close>, \<open>tp\<close> is the least number with
  \<open>length xs \<le> tp * l\<close>, the responses for the pages \<open>1..tp\<close> of the same query hold
  \<open>length xs\<close> products in total, and a page beyond \<open>tp\<close> holds none.
\<close>

theorem pagination_correct:
  assumes "indexed s" and "cacheCoherent s"
  shows "\<exists>fs. filterProducts (ensureProductsFresh e s) (q_search (readParams req))
                 (q_category (readParams req)) = Inr fs
           \<and> (let p = readParams req; xs = sortStage p fs; l = q_limit p;
                   tp = pageCount (length xs) l
               in fst (listProducts e req s)
                    = ProductList (buildPayload p xs) [(''X-Total-Count'', showNat (length xs))]
                  \<and> status (fst (listProducts e req s)) = 200
                  \<and> resp_products (buildPayload p xs)
                      = map toPublicProduct (take l (drop ((q_page p - 1) * l) xs))
                  \<and> totalPages (resp_pagination (buildPayload p xs)) = tp
                  \<and> length xs \<le> tp * l \<and> (0 < length xs \<longrightarrow> (tp - 1) * l < length xs)
                  \<and> (length xs = 0 \<longrightarrow> tp = 0)
                  \<and> (\<forall>pg\<ge>1. fst (listProducts e (req\<lparr>rawPage := Some (of_nat pg)\<rparr>) s)
                        = ProductList (buildPayload (p\<lparr>q_page := pg\<rparr>) xs)
                            [(''X-Total-Count'', showNat (length xs))])
                  \<and> (\<Sum>pg = 1..tp. length (resp_products (buildPayload (p\<lparr>q_page := pg\<rparr>) xs)))
                      = length xs
                  \<and> (tp < q_page p \<longrightarrow> resp_products (buildPayload p xs) = []))"
proof -
  let ?p = "readParams req"
  from freshResponse_indexed[OF assms(1), of e req] obtain fs where
    fs: "filterProducts (ensureProductsFresh e s) (q_search ?p) (q_category ?p) = Inr fs"
    and fr: "freshResponse e req s = ProductList (buildPayload ?p (sortStage ?p fs))
                      [(''X-Total-Count'', showNat (length (sortStage ?p fs)))]"
    by blast
  let ?xs = "sortStage ?p fs" and ?l = "q_limit ?p"
  let ?tp = "pageCount (length ?xs) ?l"
  have l1: "1 \<le> ?l" by (rule readParams_valid)
  then have l0: "0 < ?l" by simp
  have r: "fst (listProducts e req s) = ProductList (buildPayload ?p ?xs)
              [(''X-Total-Count'', showNat (length ?xs))]"
    using listProducts_fresh[OF assms(2), of e req] fr by simp
  have pages: "fst (listProducts e (req\<lparr>rawPage := Some (of_nat pg)\<rparr>) s)
                = ProductList (buildPayload (?p\<lparr>q_page := pg\<rparr>) ?xs)
                    [(''X-Total-Count'', showNat (length ?xs))]" if "1 \<le> pg" for pg
  proof -
    let ?req = "req\<lparr>rawPage := Some (of_nat pg)\<rparr>"
    have rp: "readParams ?req = ?p\<lparr>q_page := pg\<rparr>" using that by (rule readParams_page)
    from fs have "filterProducts (ensureProductsFresh e s) (q_search (readParams ?req))
                    (q_category (readParams ?req)) = Inr fs"
      by (simp add: rp)
    then have "freshResponse e ?req s
        = ProductList (buildPayload (readParams ?req) (sortStage (readParams ?req) fs))
            [(''X-Total-Count'', showNat (length (sortStage (readParams ?req) fs)))]"
      by (simp add: freshResponse_def computeResponse_def Let_def)
    then show ?thesis using listProducts_fresh[OF assms(2), of e ?req] by (simp add: rp)
  qed
  have "resp_products (buildPayload ?p ?xs)
          = map toPublicProduct (take ?l (drop ((q_page ?p - 1) * ?l) ?xs))"
    by (simp add: buildPayload_def paginate_eq Let_def)
  moreover have "totalPages (resp_pagination (buildPayload ?p ?xs)) = ?tp"
    by (simp add: buildPayload_def Let_def)
  moreover note pageCount_bounds(1)[OF l0, of "length ?xs"]
    pageCount_bounds(2)[OF l0, of "length ?xs"] pageCount_bounds(3)[OF l0]
    page_lengths_sum[OF l1, of ?xs] page_beyond[OF l1, of ?xs]
  ultimately show ?thesis using fs r pages
    by (intro exI[of _ fs]) (simp add: Let_def)
qed

theorem pagination_correct_witness:
  "indexed emptyCatalog \<and> cacheCoherent emptyCatalog
   \<and> fst (listProducts demoEnv (plainRequest\<lparr>rawLimit := Some 2, rawPage := Some 3\<rparr>) emptyCatalog)
       = ProductList
           \<lparr> resp_products = [],
             resp_pagination =
               \<lparr> currentPage = 3, totalPages = 2, totalItems = 3, itemsPerPage = 2,
                 nextPage = None,
                 prevPage = Some (readParams (plainRequest\<lparr>rawLimit := Some 2, rawPage := Some 2\<rparr>)) \<rparr> \<rparr>
           [(''X-Total-Count'', ''3'')]
   \<and> (\<exists>fs. filterProducts (ensureProductsFresh demoEnv emptyCatalog) [] [] = Inr fs
          \<and> length fs = 3
          \<and> status (fst (listProducts demoEnv
                (plainRequest\<lparr>rawLimit := Some 2, rawPage := Some 3\<rparr>) emptyCatalog)) = 200)"
proof -
  let ?req = "plainRequest\<lparr>rawLimit := Some 2, rawPage := Some 3\<rparr>"
  have h1: "indexed emptyCatalog" by code_simp
  have h2: "cacheCoherent emptyCatalog" by (simp add: cacheCoherent_def emptyCatalog_def)
  have p: "q_search (readParams ?req) = []" "q_category (readParams ?req) = []"
    by code_simp+
  have v: "fst (listProducts demoEnv ?req emptyCatalog)
       = ProductList
           \<lparr> resp_products = [],
             resp_pagination =
               \<lparr> currentPage = 3, totalPages = 2, totalItems = 3, itemsPerPage = 2,
                 nextPage = None,
                 prevPage = Some (readParams (plainRequest\<lparr>rawLimit := Some 2, rawPage := Some 2\<rparr>)) \<rparr> \<rparr>
           [(''X-Total-Count'', ''3'')]"
    by code_simp
  have n: "length (products (ensureProductsFresh demoEnv emptyCatalog)) = 3" by code_simp
  from pagination_correct[OF h1 h2, of demoEnv ?req] obtain fs where
    fs: "filterProducts (ensureProductsFresh demoEnv emptyCatalog) [] [] = Inr fs"
    and st: "status (fst (listProducts demoEnv ?req emptyCatalog)) = 200"
    unfolding p Let_def by blast
  from fs n have "length fs = 3" by (simp add: filterProducts_def)
  with h1 h2 v fs st show ?thesis by blast
qed

section \<open>Updating a product\<close>

lemma findIndex_Some:
  "findIndex P xs = Some i \<Longrightarrow> i < length xs \<and> P (xs ! i) \<and> (\<forall>j<i. \<not> P (xs ! j))"
proof (induction xs arbitrary: i)
  case Nil
  then show ?case by simp
next
  case (Cons x xs)
  show ?case
  proof (cases "P x")
    case True
    with Cons.prems show ?thesis by simp
  next
    case False
    with Cons.prems obtain k where k: "findIndex P xs = Some k" "i = Suc k" by auto
    from Cons.IH[OF k(1)] False k(2) show ?thesis by (auto simp: nth_Cons split: nat.splits)
  qed
qed

lemma applyUpdate_frame:
  "pid (applyUpdate b old) = pid old"
  "rating (applyUpdate b old) = rating old"
  "createdAt (applyUpdate b old) = createdAt old"
  "costPrice (applyUpdate b old) = costPrice old"
  "supplier (applyUpdate b old) = supplier old"
  "internalNotes (applyUpdate b old) = internalNotes old"
  "adminOnly (applyUpdate b old) = adminOnly old"
  by (simp_all add: applyUpdate_def Let_def split: option.splits)

lemma applyUpdate_absent:
  "b_name b = None \<Longrightarrow> name (applyUpdate b old) = name old"
  "b_description b = None \<Longrightarrow> description (applyUpdate b old) = description old"
  "b_price b = None \<Longrightarrow> price (applyUpdate b old) = price old"
  "b_category b = None \<Longrightarrow> category (applyUpdate b old) = category old"
  "b_brand b = None \<Longrightarrow> brand (applyUpdate b old) = brand old"
  "b_stock b = None \<Longrightarrow> stock (applyUpdate b old) = stock old"
  "b_tags b = None \<Longrightarrow> tags (applyUpdate b old) = tags old"
  by (simp_all add: applyUpdate_def Let_def split: option.splits)

lemma withSearchableText_public [simp]:
  "toPublicProduct (withSearchableText p) = toPublicProduct p"
  by (simp add: toPublicProduct_def withSearchableText_def)

lemma withSearchableText_keeps:
  "name (withSearchableText p) = name p" "description (withSearchableText p) = description p"
  "price (withSearchableText p) = price p" "brand (withSearchableText p) = brand p"
  "stock (withSearchableText p) = stock p" "rating (withSearchableText p) = rating p"
  "tags (withSearchableText p) = tags p" "createdAt (withSearchableText p) = createdAt p"
  "costPrice (withSearchableText p) = costPrice p" "supplier (withSearchableText p) = supplier p"
  "internalNotes (withSearchableText p) = internalNotes p"
  "adminOnly (withSearchableText p) = adminOnly p"
  by (simp_all add: withSearchableText_def)

lemma updateProduct_success:
  assumes "updateProduct e productId b s = (r, s1)" "succeeded r"
  shows "\<exists>i. findIndex (\<lambda>p. pid p = productId) (products (ensureProductsFresh e s)) = Some i
           \<and> r = ProductUpdated (toPublicProduct (applyUpdate b (products (ensureProductsFresh e s) ! i)))
           \<and> products s1 = map withSearchableText
                 ((products (ensureProductsFresh e s))[i := applyUpdate b (products (ensureProductsFresh e s) ! i)])"
  using assms
  by (auto simp: updateProduct_def Let_def buildIndexes_products
           dest: requireAdmin_refuses split: option.splits if_splits)

lemma update_frame_core:
  assumes "updateProduct e productId b s = (r, s1)" and "succeeded r"
  shows "\<exists>i. i < length (products (ensureProductsFresh e s))
           \<and> length (products s1) = length (products (ensureProductsFresh e s))
           \<and> (let old = products (ensureProductsFresh e s) ! i; new = products s1 ! i
               in pid old = productId \<and> r = ProductUpdated (toPublicProduct new)
                  \<and> pid new = pid old \<and> rating new = rating old \<and> createdAt new = createdAt old
                  \<and> costPrice new = costPrice old \<and> supplier new = supplier old
                  \<and> internalNotes new = internalNotes old \<and> adminOnly new = adminOnly old
                  \<and> (b_name b = None \<longrightarrow> name new = name old)
                  \<and> (b_description b = None \<longrightarrow> description new = description old)
                  \<and> (b_price b = None \<longrightarrow> price new = price old)
                  \<and> (b_category b = None \<longrightarrow> category new = category old)
                  \<and> (b_brand b = None \<longrightarrow> brand new = brand old)
                  \<and> (b_stock b = None \<longrightarrow> stock new = stock old)
                  \<and> (b_tags b = None \<longrightarrow> tags new = tags old))
           \<and> (\<forall>j < length (products s1). j \<noteq> i \<longrightarrow>
                 products s1 ! j = withSearchableText (products (ensureProductsFresh e s) ! j))"
proof -
  let ?ps = "products (ensureProductsFresh e s)"
  from updateProduct_success[OF assms] obtain i where
    i: "findIndex (\<lambda>p. pid p = productId) ?ps = Some i"
    and r: "r = ProductUpdated (toPublicProduct (applyUpdate b (?ps ! i)))"
    and ps1: "products s1 = map withSearchableText (?ps[i := applyUpdate b (?ps ! i)])"
    by blast
  from findIndex_Some[OF i] have il: "i < length ?ps" and pi: "pid (?ps ! i) = productId" by auto
  have new: "products s1 ! i = withSearchableText (applyUpdate b (?ps ! i))"
    using il by (simp add: ps1)
  have others: "\<forall>j < length (products s1). j \<noteq> i \<longrightarrow> products s1 ! j = withSearchableText (?ps ! j)"
    by (simp add: ps1)
  have len: "length (products s1) = length ?ps" by (simp add: ps1)
  show ?thesis
    using il len pi r others
    by (intro exI[of _ i])
       (simp add: Let_def new withSearchableText_keeps applyUpdate_frame applyUpdate_absent)
qed

lemma createProduct_success:
  assumes "createProduct e b s = (r, s1)" "succeeded r"
  shows "products s1 = map withSearchableText
           (products (ensureProductsFresh e s) @ [newProductOf e (ensureProductsFresh e s) b])"
  using assms
  by (auto simp: createProduct_def Let_def buildIndexes_products
           dest: requireAdmin_refuses split: option.splits if_splits)

lemma deleteProduct_success:
  assumes "deleteProduct e i s = (r, s1)" "succeeded r"
  shows "\<exists>k. products s1 = map withSearchableText
           (take k (products (ensureProductsFresh e s)) @ drop (Suc k) (products (ensureProductsFresh e s)))"
  using assms
  by (auto simp: deleteProduct_def Let_def buildIndexes_products
           dest: requireAdmin_refuses split: option.splits if_splits)

lemma mutation_keeps_ratings:
  assumes "mutate e m s = (r, s1)" "succeeded r" "p1 \<in> set (products s1)"
  shows "(\<exists>p0 \<in> set (products (ensureProductsFresh e s)).
            pid p0 = pid p1 \<and> rating p0 = rating p1 \<and> createdAt p0 = createdAt p1)
         \<or> ((\<exists>b. m = Create b) \<and> rating p1 = 0)"
proof (cases m)
  case (Create b)
  with assms(1,2) have "products s1 = map withSearchableText
           (products (ensureProductsFresh e s) @ [newProductOf e (ensureProductsFresh e s) b])"
    using createProduct_success by simp
  with assms(3) obtain q where q: "p1 = withSearchableText q"
    "q \<in> set (products (ensureProductsFresh e s)) \<or> q = newProductOf e (ensureProductsFresh e s) b"
    by auto
  from q(2) show ?thesis
  proof
    assume "q \<in> set (products (ensureProductsFresh e s))"
    then show ?thesis using q(1) by (auto simp: withSearchableText_keeps)
  next
    assume "q = newProductOf e (ensureProductsFresh e s) b"
    then have "rating p1 = 0" using q(1) by (simp add: withSearchableText_keeps newProductOf_def Let_def)
    with Create show ?thesis by blast
  qed
next
  case (Update i b)
  let ?ps = "products (ensureProductsFresh e s)"
  from assms(1,2) Update updateProduct_success[of e i b s r s1] obtain k where
    k: "findIndex (\<lambda>p. pid p = i) ?ps = Some k"
    and ps1: "products s1 = map withSearchableText (?ps[k := applyUpdate b (?ps ! k)])"
    by auto
  from findIndex_Some[OF k] have kl: "k < length ?ps" by simp
  from assms(3) ps1 obtain q where q: "p1 = withSearchableText q"
    "q \<in> set (?ps[k := applyUpdate b (?ps ! k)])" by auto
  from q(2) have "q = applyUpdate b (?ps ! k) \<or> q \<in> set ?ps"
    using set_update_subset_insert[of ?ps k] by auto
  then show ?thesis
  proof
    assume "q = applyUpdate b (?ps ! k)"
    then have "pid (?ps ! k) = pid p1 \<and> rating (?ps ! k) = rating p1 \<and> createdAt (?ps ! k) = createdAt p1"
      using q(1) by (simp add: withSearchableText_keeps applyUpdate_frame)
    moreover have "?ps ! k \<in> set ?ps" using kl by simp
    ultimately show ?thesis by blast
  next
    assume "q \<in> set ?ps"
    then show ?thesis using q(1) by (auto simp: withSearchableText_keeps)
  qed
next
  case (Delete i)
  let ?ps = "products (ensureProductsFresh e s)"
  from assms(1,2) Delete deleteProduct_success[of e i s r s1] obtain k where
    "products s1 = map withSearchableText (take k ?ps @ drop (Suc k) ?ps)" by auto
  with assms(3) obtain q where q: "p1 = withSearchableText q" "q \<in> set ?ps"
    by (auto dest: in_set_takeD in_set_dropD)
  then show ?thesis by (auto simp: withSearchableText_keeps)
qed

text \<open>
  Claim C10.  A successful update replaces exactly one stored product, the first one
  whose id is the requested id.  The replacement has the same id, rating and creation
  time (and the same internal fields), every updatable field that the request leaves out
  keeps its value, and every other product is stored as it was, up to the recomputed
  \<^verbatim>\<open>searchableText\<close>.  No mutation of the public API changes a rating: after a
  successful create, update or delete every stored product has the id, rating and
  creation time of a product stored before, or is the product just created, whose rating
  is \<open>0\<close>.
\<close>

theorem update_frame:
  assumes "mutate e m s = (r, s1)" and "succeeded r"
  shows "(\<forall>p1 \<in> set (products s1).
            (\<exists>p0 \<in> set (products (ensureProductsFresh e s)).
                pid p0 = pid p1 \<and> rating p0 = rating p1 \<and> createdAt p0 = createdAt p1)
            \<or> ((\<exists>b. m = Create b) \<and> rating p1 = 0))
       \<and> (\<forall>productId b. m = Update productId b \<longrightarrow>
            (\<exists>i. i < length (products (ensureProductsFresh e s))
               \<and> length (products s1) = length (products (ensureProductsFresh e s))
               \<and> (let old = products (ensureProductsFresh e s) ! i; new = products s1 ! i
                   in pid old = productId \<and> r = ProductUpdated (toPublicProduct new)
                      \<and> pid new = pid old \<and> rating new = rating old
                      \<and> createdAt new = createdAt old
                      \<and> costPrice new = costPrice old \<and> supplier new = supplier old
                      \<and> internalNotes new = internalNotes old \<and> adminOnly new = adminOnly old
                      \<and> (b_name b = None \<longrightarrow> name new = name old)
                      \<and> (b_description b = None \<longrightarrow> description new = description old)
                      \<and> (b_price b = None \<longrightarrow> price new = price old)
                      \<and> (b_category b = None \<longrightarrow> category new = category old)
                      \<and> (b_brand b = None \<longrightarrow> brand new = brand old)
                      \<and> (b_stock b = None \<longrightarrow> stock new = stock old)
                      \<and> (b_tags b = None \<longrightarrow> tags new = tags old))
               \<and> (\<forall>j < length (products s1). j \<noteq> i \<longrightarrow>
                     products s1 ! j
                       = withSearchableText (products (ensureProductsFresh e s) ! j))))"
proof (intro conjI ballI allI impI)
  fix p1 assume "p1 \<in> set (products s1)"
  from mutation_keeps_ratings[OF assms this]
  show "(\<exists>p0 \<in> set (products (ensureProductsFresh e s)).
            pid p0 = pid p1 \<and> rating p0 = rating p1 \<and> createdAt p0 = createdAt p1)
        \<or> ((\<exists>b. m = Create b) \<and> rating p1 = 0)" .
next
  fix productId b assume "m = Update productId b"
  with assms(1) have "updateProduct e productId b s = (r, s1)" by simp
  from update_frame_core[OF this assms(2)]
  show "\<exists>i. i < length (products (ensureProductsFresh e s))
               \<and> length (products s1) = length (products (ensureProductsFresh e s))
               \<and> (let old = products (ensureProductsFresh e s) ! i; new = products s1 ! i
                   in pid old = productId \<and> r = ProductUpdated (toPublicProduct new)
                      \<and> pid new = pid old \<and> rating new = rating old
                      \<and> createdAt new = createdAt old
                      \<and> costPrice new = costPrice old \<and> supplier new = supplier old
                      \<and> internalNotes new = internalNotes old \<and> adminOnly new = adminOnly old
                      \<and> (b_name b = None \<longrightarrow> name new = name old)
                      \<and> (b_description b = None \<longrightarrow> description new = description old)
                      \<and> (b_price b = None \<longrightarrow> price new = price old)
                      \<and> (b_category b = None \<longrightarrow> category new = category old)
                      \<and> (b_brand b = None \<longrightarrow> brand new = brand old)
                      \<and> (b_stock b = None \<longrightarrow> stock new = stock old)
                      \<and> (b_tags b = None \<longrightarrow> tags new = tags old))
               \<and> (\<forall>j < length (products s1). j \<noteq> i \<longrightarrow>
                     products s1 ! j
                       = withSearchableText (products (ensureProductsFresh e s) ! j))" .
qed

theorem update_frame_witness:
  "mutate demoEnv (Update ''3'' (noChange\<lparr>b_price := Some 25\<rparr>)) emptyCatalog
     = (fst (mutate demoEnv (Update ''3'' (noChange\<lparr>b_price := Some 25\<rparr>)) emptyCatalog),
        snd (mutate demoEnv (Update ''3'' (noChange\<lparr>b_price := Some 25\<rparr>)) emptyCatalog))
   \<and> succeeded (fst (mutate demoEnv (Update ''3'' (noChange\<lparr>b_price := Some 25\<rparr>)) emptyCatalog))
   \<and> map price (products (ensureProductsFresh demoEnv emptyCatalog)) = [30, 20, 20]
   \<and> map price
        (products (snd (mutate demoEnv (Update ''3'' (noChange\<lparr>b_price := Some 25\<rparr>)) emptyCatalog)))
       = [30, 20, 25]
   \<and> (\<exists>i. i < length (products (ensureProductsFresh demoEnv emptyCatalog))
          \<and> pid (products (ensureProductsFresh demoEnv emptyCatalog) ! i) = ''3''
          \<and> rating (products (snd (mutate demoEnv (Update ''3'' (noChange\<lparr>b_price := Some 25\<rparr>))
                 emptyCatalog)) ! i)
             = rating (products (ensureProductsFresh demoEnv emptyCatalog) ! i)
          \<and> name (products (snd (mutate demoEnv (Update ''3'' (noChange\<lparr>b_price := Some 25\<rparr>))
                 emptyCatalog)) ! i)
             = name (products (ensureProductsFresh demoEnv emptyCatalog) ! i))"
proof -
  let ?b = "noChange\<lparr>b_price := Some 25\<rparr>"
  let ?u = "mutate demoEnv (Update ''3'' ?b) emptyCatalog"
  have h1: "?u = (fst ?u, snd ?u)" by simp
  have h2: "succeeded (fst ?u)" by code_simp
  have h3: "map price (products (ensureProductsFresh demoEnv emptyCatalog)) = [30, 20, 20]"
    by code_simp
  have h4: "map price (products (snd ?u)) = [30, 20, 25]" by code_simp
  have nm: "b_name ?b = None" by (simp add: noChange_def)
  note u = update_frame[OF h1 h2, THEN conjunct2, THEN spec, THEN spec, THEN mp, OF refl]
  from u[unfolded Let_def] have
    "\<exists>i. i < length (products (ensureProductsFresh demoEnv emptyCatalog))
         \<and> pid (products (ensureProductsFresh demoEnv emptyCatalog) ! i) = ''3''
         \<and> rating (products (snd ?u) ! i)
             = rating (products (ensureProductsFresh demoEnv emptyCatalog) ! i)
         \<and> (b_name ?b = None \<longrightarrow> name (products (snd ?u) ! i)
             = name (products (ensureProductsFresh demoEnv emptyCatalog) ! i))"
    by (elim exE conjE) (intro exI conjI, assumption+)
  with nm have ex:
    "\<exists>i. i < length (products (ensureProductsFresh demoEnv emptyCatalog))
         \<and> pid (products (ensureProductsFresh demoEnv emptyCatalog) ! i) = ''3''
         \<and> rating (products (snd ?u) ! i)
             = rating (products (ensureProductsFresh demoEnv emptyCatalog) ! i)
         \<and> name (products (snd ?u) ! i)
             = name (products (ensureProductsFresh demoEnv emptyCatalog) ! i)"
    by simp
  show ?thesis by (intro conjI h1 h2 h3 h4 ex)
qed

section \<open>Searching\<close>

subsection \<open>Normalising a piece of a normalised text\<close>

lemma lowerChar_idem: "lowerChar (lowerChar c) = lowerChar c"
proof (cases "(65 \<le> code_unit c \<and> code_unit c \<le> 90) \<or> (192 \<le> code_unit c \<and> code_unit c \<le> 222 \<and> code_unit c \<noteq> 215)")
  case True
  define d where "d = char_of (code_unit c + 32)"
  have l: "lowerChar c = d" using True by (simp add: lowerChar_def Let_def d_def)
  have "code_unit c + 32 < 256" using True by auto
  then have cu: "code_unit d = code_unit c + 32" by (simp add: code_unit_def d_def)
  have "\<not> ((65 \<le> code_unit d \<and> code_unit d \<le> 90) \<or> (192 \<le> code_unit d \<and> code_unit d \<le> 222 \<and> code_unit d \<noteq> 215))"
    unfolding cu using True by auto
  then have "lowerChar d = d" unfolding lowerChar_def Let_def by (rule if_not_P)
  with l show ?thesis by simp
next
  case False
  then have "lowerChar c = c" unfolding lowerChar_def Let_def by (rule if_not_P)
  then show ?thesis by simp
qed

lemma lowerChar_space: "lowerChar (CHR '' '') = CHR '' ''"
  by (simp add: lowerChar_def code_unit_def)

lemma set_collapseFrom: "set (collapseFrom b s) \<subseteq> insert (CHR '' '') (set s)"
  by (induction s arbitrary: b) auto

lemma sublist_trim: "sublist (trim s) s"
proof -
  have "sublist (dropWhile isSpace (rev (dropWhile isSpace s))) (rev (dropWhile isSpace s))"
    by simp
  then have "sublist (trim s) (dropWhile isSpace s)"
    by (simp add: trim_def sublist_rev_left)
  then show ?thesis using sublist_dropWhile sublist_order.order_trans by blast
qed

lemma normalized_lower:
  assumes "c \<in> set (normalizeText x)"
  shows "lowerChar c = c"
proof -
  from assms have "c \<in> set (collapseSpaces (toLowerCase x))"
    using set_mono_sublist[OF sublist_trim] by (auto simp: normalizeText_def)
  then have "c = CHR '' '' \<or> c \<in> lowerChar ` set x"
    using set_collapseFrom[of False "toLowerCase x"] by (auto simp: collapseSpaces_def toLowerCase_def)
  then show ?thesis by (auto simp: lowerChar_space lowerChar_idem)
qed

lemma spaced_collapseFrom:
  "spaced (collapseFrom b s) \<and> (b \<longrightarrow> collapseFrom b s = [] \<or> \<not> isSpace (hd (collapseFrom b s)))"
proof (induction s arbitrary: b)
  case Nil
  then show ?case by simp
next
  case (Cons c s)
  have sp: "isSpace (CHR '' '')" by (simp add: isSpace_def code_unit_def)
  show ?case
  proof (cases "isSpace c")
    case True
    from Cons.IH[of True] show ?thesis using True
      by (cases "collapseFrom True s") (auto simp: sp)
  next
    case False
    from Cons.IH[of False] show ?thesis using False
      by (cases "collapseFrom False s") auto
  qed
qed

lemma spaced_append: "spaced (xs @ ys) \<Longrightarrow> spaced xs \<and> spaced ys"
proof (induction xs rule: spaced.induct)
  case 1
  then show ?case by simp
next
  case (2 c)
  then show ?case by (cases ys) auto
next
  case (3 c d r)
  then show ?case by auto
qed

lemma spaced_sublist: "sublist q t \<Longrightarrow> spaced t \<Longrightarrow> spaced q"
  by (metis spaced_append sublist_def)

lemma collapse_spaced:
  "spaced s \<Longrightarrow> (b \<longrightarrow> s = [] \<or> \<not> isSpace (hd s)) \<Longrightarrow> collapseFrom b s = s"
proof (induction s arbitrary: b rule: spaced.induct)
  case 1
  then show ?case by simp
next
  case (2 c)
  then show ?case by auto
next
  case (3 c d r)
  show ?case
  proof (cases "isSpace c")
    case True
    with 3 have "c = CHR '' ''" "\<not> isSpace d" "\<not> b" "spaced (d # r)" by auto
    with "3.IH"[of True] True show ?thesis by simp
  next
    case False
    with 3 have "spaced (d # r)" by auto
    with "3.IH"[of False] False show ?thesis by simp
  qed
qed

lemma spaced_normalized: "spaced (normalizeText x)"
  using spaced_sublist[OF sublist_trim] spaced_collapseFrom[of False "toLowerCase x"]
  by (simp add: normalizeText_def collapseSpaces_def)

lemma normalize_sublist:
  assumes "sublist q (normalizeText x)"
  shows "normalizeText q = trim q" "sublist (normalizeText q) (normalizeText x)"
proof -
  have "\<forall>c \<in> set q. lowerChar c = c"
    using set_mono_sublist[OF assms] normalized_lower by blast
  then have lo: "toLowerCase q = q" by (simp add: toLowerCase_def map_idI)
  have "spaced q" using spaced_sublist[OF assms spaced_normalized] .
  then have co: "collapseSpaces q = q" by (simp add: collapseSpaces_def collapse_spaced)
  show n: "normalizeText q = trim q" by (simp add: normalizeText_def lo co)
  show "sublist (normalizeText q) (normalizeText x)"
    unfolding n using sublist_trim assms sublist_order.order_trans by blast
qed

subsection \<open>Trigrams, intersections and pages\<close>

lemma set_getTrigrams:
  "set (getTrigrams t) = {take 3 (drop i t) | i. i + 3 \<le> length t}"
proof (cases "length t < 3")
  case True
  then show ?thesis by (auto simp: getTrigrams_def)
next
  case False
  then have "getTrigrams t = map (\<lambda>i. take 3 (drop i t)) [0..<Suc (length t - 3)]"
    by (simp add: getTrigrams_def slice_def del: upt_Suc)
  then have "set (getTrigrams t) = (\<lambda>i. take 3 (drop i t)) ` {0..<Suc (length t - 3)}"
    by (simp only: set_map set_upt)
  also have "\<dots> = {take 3 (drop i t) | i. i + 3 \<le> length t}"
    using False by (auto simp: image_iff)
  finally show ?thesis .
qed

lemma getTrigrams_Nil_iff: "getTrigrams t = [] \<longleftrightarrow> length t < 3"
  by (simp add: getTrigrams_def)

lemma trigrams_sublist:
  assumes "sublist q t"
  shows "set (getTrigrams q) \<subseteq> set (getTrigrams t)"
proof
  fix x assume "x \<in> set (getTrigrams q)"
  then obtain i where i: "i + 3 \<le> length q" "x = take 3 (drop i q)"
    by (auto simp: set_getTrigrams)
  from assms obtain ps ss where t: "t = ps @ q @ ss" by (auto simp: sublist_def)
  have "take 3 (drop (length ps + i) t) = take 3 (drop i q)"
    using i(1) by (simp add: t)
  moreover have "length ps + i + 3 \<le> length t" using i(1) by (simp add: t)
  ultimately have "\<exists>j. x = take 3 (drop j t) \<and> j + 3 \<le> length t"
    using i(2) by (intro exI[of _ "length ps + i"]) simp
  then show "x \<in> set (getTrigrams t)"
    by (auto simp: set_getTrigrams)
qed

lemma narrow_Some:
  "narrow ix (Some c) k = Some (filter (\<lambda>i. i \<in> set (postings ix k)) c)"
  by (simp add: narrow_def)

lemma foldl_narrow_Some:
  "foldl (narrow ix) (Some c) ks = Some (filter (\<lambda>i. \<forall>k \<in> set ks. i \<in> set (postings ix k)) c)"
proof (induction ks arbitrary: c)
  case Nil
  then show ?case by simp
next
  case (Cons k ks)
  have "filter (\<lambda>i. \<forall>k' \<in> set ks. i \<in> set (postings ix k')) (filter (\<lambda>i. i \<in> set (postings ix k)) c)
        = filter (\<lambda>i. \<forall>k' \<in> set (k # ks). i \<in> set (postings ix k')) c"
    by (auto intro: filter_cong)
  with Cons.IH[of "filter (\<lambda>i. i \<in> set (postings ix k)) c"] show ?case
    by (simp add: narrow_Some)
qed

lemma intersectPostings_set:
  assumes "ks \<noteq> []"
  shows "\<exists>c. intersectPostings ix ks = Some c \<and> set c = {i. \<forall>k \<in> set ks. i \<in> set (postings ix k)}"
proof -
  from assms obtain k ks' where ks: "ks = k # ks'" by (cases ks) auto
  have "narrow ix None k = Some (postings ix k)" by (simp add: narrow_def)
  then have "intersectPostings ix ks
        = Some (filter (\<lambda>i. \<forall>k \<in> set ks'. i \<in> set (postings ix k)) (postings ix k))"
    by (simp add: intersectPostings_def ks foldl_narrow_Some)
  then show ?thesis by (auto simp: ks)
qed

lemma set_orderBy: "set (orderBy f ord xs) = set xs"
proof -
  have "set (orderBy f ord xs) = (\<lambda>d. snd (snd d)) ` set (decorate f 0 xs)"
    by (simp add: orderBy_def set_baseSortBy)
  also have "\<dots> = set (map (\<lambda>d. snd (snd d)) (decorate f 0 xs))" by simp
  finally show ?thesis by (simp only: map_decorate)
qed

lemma set_sortStage: "set (sortStage p fs) = set fs"
  by (simp add: sortStage_def sortProducts_def set_orderBy)

lemma on_some_page:
  assumes "x \<in> set xs" "1 \<le> l"
  shows "\<exists>pg\<ge>1. x \<in> set (take l (drop ((pg - 1) * l) xs))"
proof -
  from assms(1) obtain i where i: "i < length xs" "xs ! i = x" by (auto simp: in_set_conv_nth)
  let ?pg = "Suc (i div l)"
  have a: "(i div l) * l + i mod l = i" by simp
  have m: "i mod l < l" using assms(2) by simp
  have le: "(i div l) * l \<le> i" by (metis a le_add1)
  have "drop ((i div l) * l) xs ! (i mod l) = xs ! ((i div l) * l + i mod l)"
    by (rule nth_drop) (use i(1) le in linarith)
  then have "drop ((i div l) * l) xs ! (i mod l) = xs ! i"
    by (simp only: a)
  moreover have "i mod l < length (drop ((i div l) * l) xs)"
    using i(1) a by (metis add.commute length_drop less_diff_conv)
  ultimately have "take l (drop ((i div l) * l) xs) ! (i mod l) = x"
    "i mod l < length (take l (drop ((i div l) * l) xs))"
    using m i(2) by simp_all
  then have "x \<in> set (take l (drop ((?pg - 1) * l) xs))"
    by (metis diff_Suc_1 nth_mem)
  then show ?thesis by (intro exI[of _ ?pg]) simp
qed

subsection \<open>The filter stage finds a product that contains the query\<close>

lemma indexed_fields:
  assumes "indexed s"
  shows "productById s = productById (buildIndexes (products s) s)"
    "trigramIndex s = trigramIndex (buildIndexes (products s) s)"
    "wordIndex s = wordIndex (buildIndexes (products s) s)"
    "categoryIndex s = categoryIndex (buildIndexes (products s) s)"
    "products s = map withSearchableText (products s)"
proof -
  from assms have e: "buildIndexes (products s) s = s\<lparr>responseCache := []\<rparr>"
    by (simp add: indexed_def)
  show "productById s = productById (buildIndexes (products s) s)"
    "trigramIndex s = trigramIndex (buildIndexes (products s) s)"
    "wordIndex s = wordIndex (buildIndexes (products s) s)"
    "categoryIndex s = categoryIndex (buildIndexes (products s) s)"
    by (simp_all add: e)
  have "products (buildIndexes (products s) s) = products s" by (simp add: e)
  then show "products s = map withSearchableText (products s)"
    by (simp add: buildIndexes_products)
qed

lemma indexed_stored:
  assumes "indexed s" "P \<in> set (products s)"
  shows "withSearchableText P = P"
proof -
  from assms(2) indexed_fields(5)[OF assms(1)] have "P \<in> set (map withSearchableText (products s))"
    by simp
  then obtain P' where "P = withSearchableText P'" by auto
  then show ?thesis by simp
qed

lemma indexed_lookup:
  assumes "indexed s" "distinct (map pid (products s))" "P \<in> set (products s)"
  shows "map_of (productById s) (pid P) = Some P"
  using byId_build_distinct[OF assms(2,3), of s] indexed_fields(1)[OF assms(1)]
    indexed_stored[OF assms(1,3)]
  by simp

lemma candidate_found:
  assumes "indexed s" "distinct (map pid (products s))" "P \<in> set (products s)"
    and "pid P \<in> set c" "c \<noteq> []" "js_includes (textOf P) nq"
  shows "\<exists>fs. verify nq (materialize s c) = Inr fs \<and> P \<in> set fs"
proof -
  have "P \<in> set (materialize s c)"
    using indexed_lookup[OF assms(1,2,3)] assms(4) by (auto simp: set_materialize)
  with assms(6) show ?thesis by (simp add: verify_total[OF assms(1)])
qed

lemma candidates_contain:
  assumes "indexed s" "P \<in> set (products s)" "js_includes (textOf P) nq"
    and "3 \<le> length nq \<or> (getWords nq \<noteq> [] \<and> set (getWords nq) \<subseteq> set (getWords (textOf P)))"
  shows "\<exists>c. candidatesFor s nq = Some c \<and> pid P \<in> set c"
proof (cases "getTrigrams nq = []")
  case False
  from intersectPostings_set[OF False, of "trigramIndex s"] obtain c where
    c: "intersectPostings (trigramIndex s) (getTrigrams nq) = Some c"
      "set c = {i. \<forall>k \<in> set (getTrigrams nq). i \<in> set (postings (trigramIndex s) k)}"
    by blast
  have "\<forall>k \<in> set (getTrigrams nq). pid P \<in> set (postings (trigramIndex s) k)"
  proof
    fix k assume "k \<in> set (getTrigrams nq)"
    then have "k \<in> set (getTrigrams (textOf P))"
      using trigrams_sublist[of nq "textOf P"] assms(3) by (auto simp: js_includes_def)
    then show "pid P \<in> set (postings (trigramIndex s) k)"
      using assms(2) postings_build(1)[of "products s" s k] indexed_fields(2)[OF assms(1)]
      by auto
  qed
  with c False show ?thesis by (simp add: candidatesFor_def Let_def)
next
  case True
  then have "length nq < 3" by (simp add: getTrigrams_Nil_iff)
  with assms(4) have w: "getWords nq \<noteq> []" "set (getWords nq) \<subseteq> set (getWords (textOf P))"
    by auto
  from intersectPostings_set[OF w(1), of "wordIndex s"] obtain c where
    c: "intersectPostings (wordIndex s) (getWords nq) = Some c"
      "set c = {i. \<forall>k \<in> set (getWords nq). i \<in> set (postings (wordIndex s) k)}"
    by blast
  have "\<forall>k \<in> set (getWords nq). pid P \<in> set (postings (wordIndex s) k)"
  proof
    fix k assume "k \<in> set (getWords nq)"
    with w(2) have "k \<in> set (getWords (textOf P))" by blast
    then show "pid P \<in> set (postings (wordIndex s) k)"
      using assms(2) postings_build(2)[of "products s" s k] indexed_fields(3)[OF assms(1)]
      by auto
  qed
  with c True w(1) show ?thesis by (simp add: candidatesFor_def Let_def)
qed

lemma getWords_Nil [simp]: "getWords [] = []"
  by (simp add: getWords_def splitNonAlnum_def)

lemma filter_finds:
  assumes "indexed s" "distinct (map pid (products s))" "P \<in> set (products s)"
    and "js_includes (textOf P) Q"
    and "3 \<le> length (normalizeText Q)
         \<or> (getWords (normalizeText Q) \<noteq> []
             \<and> set (getWords (normalizeText Q)) \<subseteq> set (getWords (textOf P)))"
  shows "\<exists>fs. filterProducts s Q [] = Inr fs \<and> P \<in> set fs"
proof -
  let ?nq = "normalizeText Q"
  have sub: "sublist Q (normalizeText (name P @ '' '' @ description P))"
    using assms(4) by (simp add: js_includes_def textOf_def)
  have inc: "js_includes (textOf P) ?nq"
    using normalize_sublist(2)[OF sub] by (simp add: js_includes_def textOf_def)
  have nq: "?nq \<noteq> []" using assms(5) by auto
  then have q: "Q \<noteq> []" by (auto simp: normalizeText_def toLowerCase_def collapseSpaces_def trim_def)
  from candidates_contain[OF assms(1,3) inc assms(5)] obtain c where
    c: "candidatesFor s ?nq = Some c" "pid P \<in> set c" by blast
  then have "c \<noteq> []" by auto
  from candidate_found[OF assms(1,2,3) c(2) this inc] obtain fs where
    "verify ?nq (materialize s c) = Inr fs" "P \<in> set fs" by blast
  with c nq q \<open>c \<noteq> []\<close> show ?thesis by (simp add: filterProducts_def Let_def)
qed

subsection \<open>No false negatives\<close>

text \<open>
  Claim C2, as amended.  Let \<open>P\<close> be a product of an indexed catalogue whose ids are
  pairwise different, and \<open>Q\<close> a literal piece of \<open>P\<close>'s normalised name and description.
  If the normalised query has at least three characters, or it yields a word token and
  each of its word tokens is a word token of \<open>P\<close>'s text, then \<open>P\<close> is in the filtered result
  of a search for \<open>Q\<close> without category, and its public projection is in the response for
  some page.
\<close>

theorem search_complete:
  assumes "indexed s" and "cacheCoherent s" and "distinct (map pid (products s))"
    and "P \<in> set (products s)"
    and "js_includes (textOf P) Q"
    and "3 \<le> length (normalizeText Q)
         \<or> (getWords (normalizeText Q) \<noteq> []
             \<and> set (getWords (normalizeText Q)) \<subseteq> set (getWords (textOf P)))"
    and "r_search req = Some Q" and "r_category req = None"
  shows "\<exists>fs. filterProducts s Q [] = Inr fs \<and> P \<in> set fs
           \<and> (\<exists>pg\<ge>1. \<exists>pl hs.
                 fst (listProducts e (req\<lparr>rawPage := Some (of_nat pg)\<rparr>) s) = ProductList pl hs
                 \<and> toPublicProduct P \<in> set (resp_products pl))"
proof -
  let ?p = "readParams req"
  from filter_finds[OF assms(1,3,4,5,6)] obtain fs where
    fs: "filterProducts s Q [] = Inr fs" "P \<in> set fs" by blast
  have fresh: "ensureProductsFresh e s = s" using assms(4) by (auto simp: ensureProductsFresh_def)
  have sp: "q_search ?p = Q" "q_category ?p = []"
    using assms(7,8) by (simp_all add: readParams_def orEmpty_def)
  let ?xs = "sortStage ?p fs"
  have "P \<in> set ?xs" using fs(2) by (simp add: set_sortStage)
  from on_some_page[OF this readParams_valid(2)[of req]] obtain pg where
    pg: "1 \<le> pg" "P \<in> set (take (q_limit ?p) (drop ((pg - 1) * q_limit ?p) ?xs))" by blast
  let ?req = "req\<lparr>rawPage := Some (of_nat pg)\<rparr>"
  have rp: "readParams ?req = ?p\<lparr>q_page := pg\<rparr>" using pg(1) by (rule readParams_page)
  have "freshResponse e ?req s
        = ProductList (buildPayload (?p\<lparr>q_page := pg\<rparr>) ?xs)
            [(''X-Total-Count'', showNat (length ?xs))]"
    using fs(1) by (simp add: freshResponse_def computeResponse_def Let_def fresh rp sp)
  then have r: "fst (listProducts e ?req s)
        = ProductList (buildPayload (?p\<lparr>q_page := pg\<rparr>) ?xs)
            [(''X-Total-Count'', showNat (length ?xs))]"
    using listProducts_fresh[OF assms(2), of e ?req] by simp
  have "toPublicProduct P \<in> set (resp_products (buildPayload (?p\<lparr>q_page := pg\<rparr>) ?xs))"
    using pg(2) by (simp add: buildPayload_def paginate_eq Let_def)
  with r pg(1) fs show ?thesis by blast
qed

theorem search_complete_witness:
  "indexed (generateProducts demoEnv emptyCatalog)
   \<and> cacheCoherent (generateProducts demoEnv emptyCatalog)
   \<and> distinct (map pid (products (generateProducts demoEnv emptyCatalog)))
   \<and> withSearchableText redHat \<in> set (products (generateProducts demoEnv emptyCatalog))
   \<and> js_includes (textOf (withSearchableText redHat)) ''d hat '' \<and> 3 \<le> length (normalizeText ''d hat '')
   \<and> js_includes (textOf (withSearchableText redHat)) ''of'' \<and> \<not> 3 \<le> length (normalizeText ''of'')
   \<and> getWords (normalizeText ''of'') \<noteq> []
   \<and> set (getWords (normalizeText ''of'')) \<subseteq> set (getWords (textOf (withSearchableText redHat)))
   \<and> (\<exists>fs. filterProducts (generateProducts demoEnv emptyCatalog) ''d hat '' [] = Inr fs
          \<and> withSearchableText redHat \<in> set fs)
   \<and> (\<exists>fs. filterProducts (generateProducts demoEnv emptyCatalog) ''of'' [] = Inr fs
          \<and> withSearchableText redHat \<in> set fs
          \<and> (\<exists>pg\<ge>1. \<exists>pl hs.
                fst (listProducts demoEnv
                      (plainRequest\<lparr>r_search := Some ''of'', rawPage := Some (of_nat pg)\<rparr>)
                      (generateProducts demoEnv emptyCatalog)) = ProductList pl hs
                \<and> toPublicProduct (withSearchableText redHat) \<in> set (resp_products pl)))"
proof -
  let ?s = "generateProducts demoEnv emptyCatalog" and ?P = "withSearchableText redHat"
  have h1: "indexed ?s" by (simp add: generateProducts_def indexed_build)
  have h2: "cacheCoherent ?s" by (simp add: generateProducts_def cacheCoherent_build)
  have h3: "distinct (map pid (products ?s))" by code_simp
  have h4: "?P \<in> set (products ?s)" by code_simp
  have a5: "js_includes (textOf ?P) ''d hat ''" by code_simp
  have a6: "3 \<le> length (normalizeText ''d hat '')" by code_simp
  have b5: "js_includes (textOf ?P) ''of''" by code_simp
  have b6: "\<not> 3 \<le> length (normalizeText ''of'')" by code_simp
  have b7: "getWords (normalizeText ''of'') \<noteq> []" by code_simp
  have b8: "set (getWords (normalizeText ''of'')) \<subseteq> set (getWords (textOf ?P))" by code_simp
  have ra: "r_search (plainRequest\<lparr>r_search := Some ''d hat ''\<rparr>) = Some ''d hat ''"
    "r_category (plainRequest\<lparr>r_search := Some ''d hat ''\<rparr>) = None"
    by (simp_all add: plainRequest_def)
  have rb: "r_search (plainRequest\<lparr>r_search := Some ''of''\<rparr>) = Some ''of''"
    "r_category (plainRequest\<lparr>r_search := Some ''of''\<rparr>) = None"
    by (simp_all add: plainRequest_def)
  from search_complete[OF h1 h2 h3 h4 a5 disjI1[OF a6] ra, of demoEnv]
  have A: "\<exists>fs. filterProducts ?s ''d hat '' [] = Inr fs \<and> ?P \<in> set fs" by blast
  from search_complete[OF h1 h2 h3 h4 b5 disjI2[OF conjI[OF b7 b8]] rb, of demoEnv]
  have B: "\<exists>fs. filterProducts ?s ''of'' [] = Inr fs \<and> ?P \<in> set fs
          \<and> (\<exists>pg\<ge>1. \<exists>pl hs.
                fst (listProducts demoEnv
                      (plainRequest\<lparr>r_search := Some ''of'', rawPage := Some (of_nat pg)\<rparr>) ?s)
                  = ProductList pl hs
                \<and> toPublicProduct ?P \<in> set (resp_products pl))"
    by simp
  from h1 h2 h3 h4 a5 a6 b5 b6 b7 b8 A B show ?thesis by blast
qed

text \<open>
  Claim C2 as stated fails in both of its cases.  \<open>ed\<close> is a piece of
  \<open>red shoe a shoe\<close> and is itself one word token, but the word index only knows whole
  words; and the three characters of \<open>a\<close> between two spaces normalise to the single
  letter \<open>a\<close>, which yields neither a trigram nor a word.  Both searches return nothing.
\<close>

theorem substring_false_negative:
  "redShoe \<in> set (generated demoEnv)
   \<and> textOf redShoe = ''red shoe a shoe''
   \<and> js_includes (textOf redShoe) ''ed'' \<and> length (getWords ''ed'') = 1
   \<and> filterProducts (generateProducts demoEnv emptyCatalog) ''ed'' [] = Inr []
   \<and> js_includes (textOf redShoe) '' a '' \<and> length '' a '' = 3
   \<and> filterProducts (generateProducts demoEnv emptyCatalog) '' a '' [] = Inr []
   \<and> fst (listProducts demoEnv (plainRequest\<lparr>r_search := Some ''ed''\<rparr>) emptyCatalog)
     = ProductList
         \<lparr> resp_products = [],
           resp_pagination =
             \<lparr> currentPage = 1, totalPages = 0, totalItems = 0, itemsPerPage = 25,
               nextPage = None, prevPage = None \<rparr> \<rparr>
         [(''X-Total-Count'', ''0'')]"
  by code_simp

subsection \<open>No false positives where a candidate set is formed\<close>

text \<open>
  When the normalised query yields a trigram or a word, or when no category is given,
  every product that the filter stage returns contains the normalised query.
\<close>

lemma filter_sound:
  assumes "indexed s" and "normalizeText Q \<noteq> []"
    and "cat = [] \<or> candidatesFor s (normalizeText Q) \<noteq> None"
    and "filterProducts s Q cat = Inr fs" and "p \<in> set fs"
  shows "searchableText p = Some (textOf p) \<and> js_includes (textOf p) (normalizeText Q)"
proof -
  let ?nq = "normalizeText Q"
  have q: "Q \<noteq> []"
    using assms(2) by (auto simp: normalizeText_def toLowerCase_def collapseSpaces_def trim_def)
  show ?thesis
  proof (cases "candidatesFor s ?nq")
    case None
    with assms(3) have "cat = []" by simp
    with None assms(2,4,5) q show ?thesis by (simp add: filterProducts_def Let_def)
  next
    case (Some ids)
    show ?thesis
    proof (cases "ids = []")
      case True
      with Some assms(2,4,5) q show ?thesis
        by (simp add: filterProducts_def Let_def split: if_splits)
    next
      case False
      let ?v = "filter (\<lambda>p. js_includes (textOf p) ?nq) (materialize s ids)"
      from Some False assms(2,4) q have "fs = ?v \<or> (\<exists>P. fs = filter P ?v)"
        by (auto simp: filterProducts_def Let_def verify_total[OF assms(1)] split: if_splits)
      with assms(5) have "p \<in> set ?v" by auto
      then show ?thesis using materialize_searchable[OF assms(1)] by auto
    qed
  qed
qed

subsection \<open>A query that yields neither trigrams nor words\<close>

text \<open>
  Claim C1 fails on the code.  The query \<open>z\<close> normalises to itself and yields no trigram
  and no word, so the candidate set stays \<^verbatim>\<open>null\<close> and the search result is empty; the
  category step then takes \<^verbatim>\<open>null\<close> for "no search requested" and returns the whole
  category.  The response holds the product \<open>Red Hat\<close>, whose text does not contain \<open>z\<close>.
\<close>

theorem search_false_positive:
  "fst (listProducts demoEnv
         (plainRequest\<lparr>r_search := Some ''z'', r_category := Some ''Sports''\<rparr>) emptyCatalog)
     = ProductList
         \<lparr> resp_products = [toPublicProduct redHat],
           resp_pagination =
             \<lparr> currentPage = 1, totalPages = 1, totalItems = 1, itemsPerPage = 25,
               nextPage = None, prevPage = None \<rparr> \<rparr>
         [(''X-Total-Count'', ''1'')]
   \<and> normalizeText ''z'' = ''z''
   \<and> \<not> js_includes (textOf redHat) (normalizeText ''z'')"
  by code_simp

text \<open>
  Claim C3 fails on the code for the same reason: the search for \<open>z\<close> alone has no
  survivors, and with the category \<open>Sports\<close> the result is the whole category, which is
  not a part of the survivors.
\<close>

theorem category_replaces_search:
  "filterProducts (generateProducts demoEnv emptyCatalog) ''z'' [] = Inr []
   \<and> filterProducts (generateProducts demoEnv emptyCatalog) ''z'' ''Sports''
       = Inr [withSearchableText redHat]
   \<and> resp_products (case fst (listProducts demoEnv
         (plainRequest\<lparr>r_search := Some ''z''\<rparr>) emptyCatalog) of ProductList pl hs \<Rightarrow> pl) = []
   \<and> resp_products (case fst (listProducts demoEnv
         (plainRequest\<lparr>r_search := Some ''z'', r_category := Some ''Sports''\<rparr>) emptyCatalog)
           of ProductList pl hs \<Rightarrow> pl) = [toPublicProduct redHat]"
  by code_simp

section \<open>The modelled sort is a sort\<close>

lemma compareMultiple_le:
  "compareMultiple ord a b \<le> 0 \<longleftrightarrow>
     (if fst a = fst b then fst (snd a) \<le> fst (snd b)
      else if ord = ''desc'' then fst b < fst a else fst a < fst b)"
  by (auto simp: compareMultiple_def compareAscending_def Let_def)

lemma insertBy_sorted:
  assumes "sorted_wrt (\<lambda>a b. compareMultiple ord a b \<le> 0) ys"
  shows "sorted_wrt (\<lambda>a b. compareMultiple ord a b \<le> 0) (insertBy (compareMultiple ord) x ys)"
  using assms
proof (induction ys)
  case Nil
  then show ?case by simp
next
  case (Cons y ys)
  show ?case
  proof (cases "compareMultiple ord x y \<le> 0")
    case True
    have "compareMultiple ord x z \<le> 0" if "z \<in> set ys" for z
    proof -
      from Cons.prems that have "compareMultiple ord y z \<le> 0" by auto
      with True show ?thesis unfolding compareMultiple_le by (auto split: if_splits)
    qed
    with True Cons.prems show ?thesis by auto
  next
    case False
    then have "compareMultiple ord y x \<le> 0" unfolding compareMultiple_le by (auto split: if_splits)
    with False Cons show ?thesis by (auto simp: set_insertBy)
  qed
qed

lemma baseSortBy_sorted:
  "sorted_wrt (\<lambda>a b. compareMultiple ord a b \<le> 0) (baseSortBy (compareMultiple ord) ds)"
  by (induction ds) (simp_all add: baseSortBy_def insertBy_sorted[unfolded baseSortBy_def])

lemma orderBy_sorted:
  "sorted_wrt (\<lambda>x y. if ord = ''desc'' then f y \<le> f x else f x \<le> f y) (orderBy f ord xs)"
proof -
  let ?ds = "baseSortBy (compareMultiple ord) (decorate f 0 xs)"
  have k: "\<forall>d \<in> set ?ds. fst d = f (snd (snd d))"
    using decorate_index[of _ f 0 xs] by (auto simp: set_baseSortBy)
  have "sorted_wrt (\<lambda>a b. if ord = ''desc'' then f (snd (snd b)) \<le> f (snd (snd a))
                           else f (snd (snd a)) \<le> f (snd (snd b))) ?ds"
  proof (rule sorted_wrt_mono_rel[OF _ baseSortBy_sorted])
    fix a b assume "a \<in> set ?ds" "b \<in> set ?ds" "compareMultiple ord a b \<le> 0"
    with k show "if ord = ''desc'' then f (snd (snd b)) \<le> f (snd (snd a))
                 else f (snd (snd a)) \<le> f (snd (snd b))"
      unfolding compareMultiple_le by (auto split: if_splits)
  qed
  then show ?thesis by (simp add: orderBy_def sorted_wrt_map)
qed

lemma mset_insertBy: "mset (insertBy cmp x ys) = add_mset x (mset ys)"
  by (induction ys) simp_all

lemma mset_baseSortBy: "mset (baseSortBy cmp ds) = mset ds"
  by (induction ds) (simp_all add: baseSortBy_def mset_insertBy)

lemma orderBy_mset: "mset (orderBy f ord xs) = mset xs"
proof -
  have "mset (orderBy f ord xs) = image_mset (\<lambda>d. snd (snd d)) (mset (decorate f 0 xs))"
    by (simp add: orderBy_def mset_baseSortBy)
  also have "\<dots> = mset (map (\<lambda>d. snd (snd d)) (decorate f 0 xs))" by simp
  finally show ?thesis by (simp only: map_decorate)
qed


section \<open>States that the module reaches\<close>

lemma showNat_nonempty: "showNat n \<noteq> []"
  by (subst showNat.simps) simp

lemma digit_plain: "isDigit c \<Longrightarrow> \<not> isSpace c \<and> c \<noteq> CHR ''-'' \<and> c \<noteq> CHR ''+''"
  by (auto simp: isDigit_def isSpace_def Let_def code_unit_def)

lemma parseInt_showNat: "parseInt (showNat n) = Some (int n)"
proof -
  obtain c cs where cs: "showNat n = c # cs" using showNat_nonempty by (cases "showNat n") auto
  then have "isDigit c" using showNat_digits[of c n] by simp
  then have pl: "\<not> isSpace c" "c \<noteq> CHR ''-''" "c \<noteq> CHR ''+''" using digit_plain by blast+
  have hd: "hd (showNat n) = c" by (simp add: cs)
  have tw: "takeWhile isDigit (showNat n) = showNat n"
    using showNat_digits by (simp add: takeWhile_eq_all_conv)
  have dw: "dropWhile isSpace (showNat n) = showNat n" using pl(1) by (simp add: cs)
  show ?thesis
    unfolding parseInt_def Let_def dw hd
    using pl(2,3) by (simp add: tw showNat_nonempty digitsValue_showNat)
qed

lemma nextId_canonical:
  assumes "canonicalIds ps" "ps \<noteq> []"
  shows "\<exists>n. nextId ps = showNat n" "nextId ps \<notin> pid ` set ps"
proof -
  from assms(1) have can: "\<forall>p \<in> set ps. \<exists>n. pid p = showNat n" by (simp add: canonicalIds_def)
  define val where "val p = digitsValue (pid p)" for p :: product
  have pv: "pid p = showNat (val p)" if "p \<in> set ps" for p
    using can that by (auto simp: val_def digitsValue_showNat)
  have ns: "map (\<lambda>p. parseInt (pid p)) ps = map (\<lambda>p. Some (int (val p))) ps"
    using pv by (auto simp: parseInt_showNat)
  define M where "M = Max (set (map (\<lambda>p. int (val p)) ps))"
  have Mge: "int (val p) \<le> M" if "p \<in> set ps" for p
    unfolding M_def using that by (intro Max_ge) auto
  have "set (map (\<lambda>p. int (val p)) ps) \<noteq> {}" using assms(2) by simp
  then have "M \<in> set (map (\<lambda>p. int (val p)) ps)" unfolding M_def by (intro Max_in) auto
  then have M0: "0 \<le> M" by auto
  have a: "None \<notin> set (map (\<lambda>p. parseInt (pid p)) ps)" unfolding ns by auto
  have b: "map the (map (\<lambda>p. parseInt (pid p)) ps) = map (\<lambda>p. int (val p)) ps"
    unfolding ns by simp
  have c: "map (\<lambda>p. parseInt (pid p)) ps \<noteq> []" using assms(2) by simp
  have nid: "nextId ps = showInt (M + 1)"
    unfolding nextId_def Let_def M_def b by (simp only: a c if_False)
  then have nid': "nextId ps = showNat (nat (M + 1))" using M0 by (simp add: showInt_def)
  then show "\<exists>n. nextId ps = showNat n" by blast
  show "nextId ps \<notin> pid ` set ps"
  proof
    assume "nextId ps \<in> pid ` set ps"
    then obtain p where p: "p \<in> set ps" "pid p = nextId ps" by auto
    with pv[OF p(1)] nid' have "val p = nat (M + 1)" by (simp add: showNat_inj)
    with Mge[OF p(1)] M0 show False by simp
  qed
qed

lemma numbered_canonical: "numbered ps \<Longrightarrow> canonicalIds ps"
proof -
  assume n: "numbered ps"
  have "inj_on showNat A" for A by (auto simp: inj_on_def dest: showNat_inj)
  then have "distinct (map showNat [1..<Suc (length ps)])" by (simp add: distinct_map)
  moreover have "\<forall>p \<in> set ps. \<exists>k. pid p = showNat k"
  proof
    fix p assume "p \<in> set ps"
    then have "pid p \<in> set (map pid ps)" by simp
    with n show "\<exists>k. pid p = showNat k" by (auto simp: numbered_def)
  qed
  ultimately show ?thesis using n by (simp add: canonicalIds_def numbered_def)
qed

lemma canonical_ids:
  "canonicalIds ps \<longleftrightarrow> distinct (map pid ps) \<and> (\<forall>i \<in> set (map pid ps). \<exists>n. i = showNat n)"
  by (auto simp: canonicalIds_def)

lemma canonical_cong: "map pid xs = map pid ys \<Longrightarrow> canonicalIds xs = canonicalIds ys"
  by (simp only: canonical_ids)

lemma canonical_stored: "canonicalIds (map withSearchableText ps) = canonicalIds ps"
  by (rule canonical_cong) simp

lemma canonical_fresh:
  assumes "canonicalIds (products s)" "numbered (generated e)"
  shows "canonicalIds (products (ensureProductsFresh e s))" "products (ensureProductsFresh e s) \<noteq> []"
  using assms numbered_canonical[OF assms(2)]
  by (auto simp: ensureProductsFresh_def generateProducts_def buildIndexes_products numbered_def
        canonical_stored)

lemma canonical_append:
  assumes "canonicalIds ps" "\<exists>n. pid new = showNat n" "pid new \<notin> pid ` set ps"
  shows "canonicalIds (ps @ [new])"
  using assms by (auto simp: canonicalIds_def)

lemma canonical_update:
  assumes "canonicalIds ps" "i < length ps" "pid new = pid (ps ! i)"
  shows "canonicalIds (ps[i := new])"
proof -
  have "map pid (ps[i := new]) = map pid ps"
    using assms(2,3) by (simp add: map_update list_update_same_conv)
  moreover have "\<forall>p \<in> set (ps[i := new]). \<exists>n. pid p = showNat n"
  proof
    fix p assume "p \<in> set (ps[i := new])"
    then have "pid p \<in> set (map pid (ps[i := new]))" by simp
    then have "pid p \<in> pid ` set ps" using calculation by simp
    with assms(1) show "\<exists>n. pid p = showNat n" by (auto simp: canonicalIds_def)
  qed
  ultimately show ?thesis using assms(1) by (simp add: canonicalIds_def)
qed

lemma canonical_remove:
  assumes "canonicalIds ps"
  shows "canonicalIds (take i ps @ drop (Suc i) ps)"
proof -
  let ?ids = "map pid ps"
  have d: "distinct ?ids" using assms by (simp add: canonicalIds_def)
  have "map pid (take i ps @ drop (Suc i) ps) = take i ?ids @ drop (Suc i) ?ids"
    by (simp add: take_map drop_map)
  moreover have "distinct (take i ?ids @ drop (Suc i) ?ids)"
    using d set_take_disj_set_drop_if_distinct[OF d, of i "Suc i"]
    by (simp add: distinct_take distinct_drop)
  moreover have "set (take i ps @ drop (Suc i) ps) \<subseteq> set ps"
    by (auto dest: in_set_takeD in_set_dropD)
  ultimately show ?thesis using assms by (auto simp: canonicalIds_def)
qed

lemma create_canonical:
  assumes "canonicalIds (products s)" "numbered (generated e)"
  shows "canonicalIds (products (snd (createProduct e b s)))"
proof -
  let ?s = "ensureProductsFresh e s"
  note f = canonical_fresh[OF assms]
  have "pid (newProductOf e ?s b) = nextId (products ?s)" by (simp add: newProductOf_def Let_def)
  with nextId_canonical[OF f] have "canonicalIds (products ?s @ [newProductOf e ?s b])"
    by (intro canonical_append[OF f(1)]) simp_all
  then have "canonicalIds (map withSearchableText (products ?s @ [newProductOf e ?s b]))"
    by (simp only: canonical_stored)
  with assms(1) f(1) show ?thesis
    by (auto simp: createProduct_def Let_def buildIndexes_products split: option.splits)
qed

lemma update_canonical:
  assumes "canonicalIds (products s)" "numbered (generated e)"
  shows "canonicalIds (products (snd (updateProduct e i b s)))"
proof -
  let ?s = "ensureProductsFresh e s"
  note f = canonical_fresh[OF assms]
  have "canonicalIds ((products ?s)[k := applyUpdate b (products ?s ! k)])"
    if "findIndex (\<lambda>p. pid p = i) (products ?s) = Some k" for k
    using findIndex_Some[OF that] by (intro canonical_update[OF f(1)]) (simp_all add: applyUpdate_frame)
  then have "canonicalIds (map withSearchableText ((products ?s)[k := applyUpdate b (products ?s ! k)]))"
    if "findIndex (\<lambda>p. pid p = i) (products ?s) = Some k" for k
    using that by (simp only: canonical_stored)
  with assms(1) f(1) show ?thesis
    by (auto simp: updateProduct_def Let_def buildIndexes_products simp del: map_update
             split: option.splits)
qed

lemma delete_canonical:
  assumes "canonicalIds (products s)" "numbered (generated e)"
  shows "canonicalIds (products (snd (deleteProduct e i s)))"
proof -
  let ?s = "ensureProductsFresh e s"
  note f = canonical_fresh[OF assms]
  have "canonicalIds (map withSearchableText (take k (products ?s) @ drop (Suc k) (products ?s)))" for k
    using canonical_remove[OF f(1)] by (simp only: canonical_stored)
  with assms(1) f(1) show ?thesis
    by (auto simp: deleteProduct_def Let_def buildIndexes_products simp del: map_append
             split: option.splits)
qed

lemma perform_canonical:
  assumes "canonicalIds (products s)" "numbered (generated e)"
  shows "canonicalIds (products (snd (perform e op s)))"
proof (cases op)
  case (Read req)
  obtain c where "snd (listProducts e req s) = (ensureProductsFresh e s)\<lparr>responseCache := c\<rparr>"
    using listProducts_state by blast
  with canonical_fresh(1)[OF assms] Read show ?thesis by simp
next
  case (Write m)
  with assms show ?thesis
    by (cases m) (simp_all add: create_canonical update_canonical delete_canonical)
qed

text \<open>
  Every state that the module reaches from its start, whatever requests it serves, is
  indexed, has a coherent cache and holds products with pairwise different ids.
\<close>

lemma reachable_invariants:
  assumes "numbered (generated e0)" "\<forall>r \<in> set ops. numbered (generated (fst r))"
  shows "indexed (afterRequests ops (generateProducts e0 emptyCatalog))
       \<and> cacheCoherent (afterRequests ops (generateProducts e0 emptyCatalog))
       \<and> distinct (map pid (products (afterRequests ops (generateProducts e0 emptyCatalog))))"
proof -
  let ?s0 = "generateProducts e0 emptyCatalog"
  have "canonicalIds (products s) \<Longrightarrow> \<forall>r \<in> set ops. numbered (generated (fst r))
        \<Longrightarrow> canonicalIds (products (afterRequests ops s))" for s
    by (induction ops arbitrary: s) (simp_all add: perform_canonical)
  moreover have "canonicalIds (products ?s0)"
    using numbered_canonical[OF assms(1)]
    by (simp add: generateProducts_def buildIndexes_products canonical_stored)
  ultimately have "canonicalIds (products (afterRequests ops ?s0))" using assms(2) by blast
  moreover have "indexed ?s0" "cacheCoherent ?s0"
    by (simp_all add: generateProducts_def indexed_build cacheCoherent_build)
  ultimately show ?thesis
    by (simp add: afterRequests_indexed afterRequests_coherent canonicalIds_def)
qed

end
